theory Spec2Isabelle
  imports Complex_Main "HOL-Library.Word"
begin

unbundle bit_operations_syntax

section \<open>Text-to-speech service of \<^verbatim>\<open>src/services/geminiService.ts\<close>\<close>

text \<open>
  The development embeds the text-to-speech part of \<^verbatim>\<open>geminiService.ts\<close>:
  the helpers \<^verbatim>\<open>decodeBase64\<close> and \<^verbatim>\<open>pcmToAudioBuffer\<close>, and the three exported
  operations \<^verbatim>\<open>prefetchTTS\<close>, \<^verbatim>\<open>stopAudio\<close> and \<^verbatim>\<open>playTTS\<close> together with the
  module-level variables they share.  JavaScript runs them on one thread; an
  \<^verbatim>\<open>async\<close> function runs without interruption up to its next \<^verbatim>\<open>await\<close>.  Each
  such uninterrupted segment is one function on an explicit record of the module
  state, and the event loop is a step function that picks which segment runs next.
\<close>

subsection \<open>Errors and basic types\<close>

datatype js_error =
    InvalidCharacterError   \<comment> \<open>thrown by \<^verbatim>\<open>atob\<close>\<close>
  | NotSupportedError       \<comment> \<open>thrown by \<^verbatim>\<open>createBuffer\<close>\<close>
  | InvalidStateError       \<comment> \<open>thrown by \<^verbatim>\<open>AudioBufferSourceNode.stop\<close>\<close>
  | ApiKeyMissing           \<comment> \<open>thrown by \<^verbatim>\<open>getAI\<close>\<close>
  | SynthesisError          \<comment> \<open>rejection of \<^verbatim>\<open>generateContent\<close>\<close>

type_synonym byte = "8 word"
type_synonym int16 = "16 word"

subsection \<open>The platform's \<^verbatim>\<open>atob\<close>\<close>

text \<open>
  \<^verbatim>\<open>atob\<close> is the browser's forgiving base64 decoder: it drops ASCII whitespace,
  drops one or two trailing \<^verbatim>\<open>=\<close> when the length is a multiple of four, throws
  when the remaining length is 1 modulo 4 or a character is outside the alphabet,
  and otherwise turns each group of sextets into bytes.  The result is a string
  whose character codes are the bytes; it is modelled as the list of these codes.
\<close>

definition is_ascii_whitespace :: "char \<Rightarrow> bool" where
  "is_ascii_whitespace c = (of_char c \<in> {9, 10, 12, 13, 32 :: nat})"

definition b64_value :: "char \<Rightarrow> nat option" where
  "b64_value c =
     (let n = (of_char c :: nat) in
      if 65 \<le> n \<and> n \<le> 90 then Some (n - 65)
      else if 97 \<le> n \<and> n \<le> 122 then Some (n - 71)
      else if 48 \<le> n \<and> n \<le> 57 then Some (n + 4)
      else if n = 43 then Some 62
      else if n = 47 then Some 63
      else None)"

definition strip_padding :: "string \<Rightarrow> string" where
  "strip_padding d =
     (if length d mod 4 = 0 then
        (if 2 \<le> length d \<and> last d = CHR ''='' \<and> last (butlast d) = CHR ''=''
           then butlast (butlast d)
         else if 1 \<le> length d \<and> last d = CHR ''='' then butlast d
         else d)
      else d)"

fun sextets_to_codes :: "nat list \<Rightarrow> nat list" where
  "sextets_to_codes (a # b # c # d # rest) =
     (let n = ((a * 64 + b) * 64 + c) * 64 + d
      in (n div 65536) # (n div 256 mod 256) # (n mod 256) # sextets_to_codes rest)"
| "sextets_to_codes [a, b, c] =
     (let n = ((a * 64 + b) * 64 + c) div 4
      in [n div 256, n mod 256])"
| "sextets_to_codes [a, b] = [(a * 64 + b) div 16]"
| "sextets_to_codes _ = []"

definition atob :: "string \<Rightarrow> js_error + nat list" where
  "atob base64 =
     (let d = strip_padding (filter (\<lambda>c. \<not> is_ascii_whitespace c) base64) in
      if length d mod 4 = 1 then Inl InvalidCharacterError
      else if list_ex (\<lambda>c. b64_value c = None) d then Inl InvalidCharacterError
      else Inr (sextets_to_codes (map (\<lambda>c. the (b64_value c)) d)))"

subsection \<open>\<^verbatim>\<open>decodeBase64\<close>\<close>

text \<open>
  \<^verbatim>\<open>
  const decodeBase64 = (base64: string) => {
    const binaryString = atob(base64);
    const len = binaryString.length;
    const bytes = new Uint8Array(len);
    for (let i = 0; i < len; i++) { bytes[i] = binaryString.charCodeAt(i); }
    return bytes;
  };
  \<close>
  The loop writes index \<open>i\<close> of a zero-filled array of length \<open>len\<close>; a store into
  a \<^verbatim>\<open>Uint8Array\<close> keeps the value modulo 256.
\<close>

function decodeBase64_loop :: "nat \<Rightarrow> nat \<Rightarrow> nat list \<Rightarrow> byte list \<Rightarrow> byte list" where
  "decodeBase64_loop i len binaryString bytes =
     (if i < len
      then decodeBase64_loop (Suc i) len binaryString (bytes[i := of_nat (binaryString ! i)])
      else bytes)"
  by pat_completeness auto
termination
  by (relation "measure (\<lambda>(i, len, _, _). len - i)") auto

declare decodeBase64_loop.simps [simp del]

definition decodeBase64 :: "string \<Rightarrow> js_error + byte list" where
  "decodeBase64 base64 =
     (case atob base64 of
        Inl e \<Rightarrow> Inl e
      | Inr binaryString \<Rightarrow>
          (let len = length binaryString;
               bytes = replicate len (0 :: byte)
           in Inr (decodeBase64_loop 0 len binaryString bytes)))"

subsection \<open>\<^verbatim>\<open>pcmToAudioBuffer\<close>\<close>

text \<open>
  An \<^verbatim>\<open>AudioBuffer\<close> as far as the code uses it: the channel count, the sample
  rate and the samples of channel 0.  A sample is a 16-bit integer divided by
  \<open>2^15\<close>, which a 32-bit float holds exactly, so samples are modelled as reals.
\<close>

record audio_buffer =
  numberOfChannels :: nat
  sampleRate :: nat
  channelData :: "real list"

text \<open>
  \<^verbatim>\<open>ctx.createBuffer(channels, length, rate)\<close> throws \<^verbatim>\<open>NotSupportedError\<close> when
  an argument is zero; otherwise the buffer is filled with zeros.
\<close>

definition createBuffer :: "nat \<Rightarrow> nat \<Rightarrow> nat \<Rightarrow> js_error + audio_buffer" where
  "createBuffer channels frameCount rate =
     (if channels = 0 \<or> frameCount = 0 \<or> rate = 0 then Inl NotSupportedError
      else Inr \<lparr>numberOfChannels = channels, sampleRate = rate,
                channelData = replicate frameCount 0\<rparr>)"

text \<open>
  \<^verbatim>\<open>new Int16Array(data.buffer, data.byteOffset, data.length / 2)\<close>: the length
  argument is converted to an integer by truncation, and element \<open>i\<close> of the view
  is made of bytes \<open>2i\<close> (low) and \<open>2i+1\<close> (high), typed arrays having the byte
  order of the platform, which is little-endian wherever browsers run.  The byte
  offset of an array made by \<^verbatim>\<open>decodeBase64\<close> is 0.
\<close>

definition int16_of_bytes :: "byte \<Rightarrow> byte \<Rightarrow> int16" where
  "int16_of_bytes lo hi = push_bit 8 (ucast hi) OR ucast lo"

definition Int16Array :: "byte list \<Rightarrow> nat \<Rightarrow> int16 list" where
  "Int16Array data n = map (\<lambda>i. int16_of_bytes (data ! (2 * i)) (data ! (2 * i + 1))) [0..<n]"

text \<open>
  \<^verbatim>\<open>
  for (let i = 0; i < frameCount; i++) {
    channelData[i] = dataInt16[i] / 32768.0;
  }
  \<close>
\<close>

definition normalize_sample :: "int16 \<Rightarrow> real" where
  "normalize_sample x = real_of_int (sint x) / 32768"

function normalize_loop :: "nat \<Rightarrow> nat \<Rightarrow> int16 list \<Rightarrow> real list \<Rightarrow> real list" where
  "normalize_loop i frameCount dataInt16 channel =
     (if i < frameCount
      then normalize_loop (Suc i) frameCount dataInt16
             (channel[i := normalize_sample (dataInt16 ! i)])
      else channel)"
  by pat_completeness auto
termination
  by (relation "measure (\<lambda>(i, frameCount, _, _). frameCount - i)") auto

declare normalize_loop.simps [simp del]

definition pcmToAudioBuffer :: "byte list \<Rightarrow> nat \<Rightarrow> js_error + audio_buffer" where
  "pcmToAudioBuffer data rate =
     (let dataInt16 = Int16Array data (length data div 2);
          frameCount = length dataInt16
      in case createBuffer 1 frameCount rate of
           Inl e \<Rightarrow> Inl e
         | Inr buffer \<Rightarrow>
             Inr (buffer\<lparr>channelData :=
                    normalize_loop 0 frameCount dataInt16 (channelData buffer)\<rparr>))"

subsection \<open>Module state\<close>

text \<open>
  The module-level variables \<^verbatim>\<open>audioContext\<close>, \<^verbatim>\<open>currentSource\<close>,
  \<^verbatim>\<open>audioCache\<close> and \<^verbatim>\<open>pendingRequests\<close> are fields of the record \<open>world\<close>.
  The cache holds the bytes returned by \<^verbatim>\<open>decodeBase64\<close>
  (\<^verbatim>\<open>Map<string, Uint8Array>\<close>), not audio buffers.  The remaining fields
  hold what JavaScript keeps implicitly:
  \<^item> \<open>api_key\<close>: whether \<^verbatim>\<open>process.env.API_KEY\<close> is set;
  \<^item> \<open>autoplay_policy\<close>: the state in which the browser creates an audio context;
  \<^item> \<open>settled\<close>: the promises that have been settled; promises are numbered;
  \<^item> \<open>fetches\<close>: the bodies of \<^verbatim>\<open>prefetchTTS\<close> suspended at
    \<^verbatim>\<open>await ai.models.generateContent(...)\<close>, by the number of their promise;
  \<^item> \<open>plays\<close>: the calls of \<^verbatim>\<open>playTTS\<close> suspended at an \<^verbatim>\<open>await\<close>, by call number;
  \<^item> \<open>sources\<close>: the buffer source nodes that were started; a call of
    \<^verbatim>\<open>playTTS\<close> creates at most one node, which carries the number of its call;
  \<^item> \<open>trace\<close>: what has been observable so far, in order.
\<close>

datatype voice = Kore | Puck | Charon

datatype ctx_state = Suspended | Running

datatype awaitable = Resolved | Promise nat

record fetch =
  f_text :: string
  f_voice :: voice

datatype play_pc =
    AwaitResume               \<comment> \<open>at \<^verbatim>\<open>await ctx.resume()\<close>\<close>
  | AwaitAudio awaitable      \<comment> \<open>at \<^verbatim>\<open>await pendingRequests.get(text)\<close> or \<^verbatim>\<open>await prefetchTTS(...)\<close>\<close>

record play_call =
  p_text :: string
  p_onEnded :: bool           \<comment> \<open>whether the optional callback was passed\<close>
  p_voice :: voice
  p_pc :: play_pc

record source_node =
  s_buffer :: audio_buffer
  s_onEnded :: bool           \<comment> \<open>the callback captured by the \<^verbatim>\<open>onended\<close> closure\<close>
  s_stopped :: bool           \<comment> \<open>\<^verbatim>\<open>stop()\<close> was called on a playing node\<close>
  s_ended :: bool             \<comment> \<open>the \<^verbatim>\<open>ended\<close> event was dispatched\<close>

datatype log_event =
    Synthesize string voice        \<comment> \<open>\<^verbatim>\<open>generateContent\<close> was called\<close>
  | ConsoleError js_error          \<comment> \<open>\<^verbatim>\<open>console.error("TTS Prefetch Error:", error)\<close>\<close>
  | DecodeBase64 string            \<comment> \<open>\<^verbatim>\<open>decodeBase64\<close> returned the bytes stored under this text\<close>
  | PcmToAudioBuffer nat string    \<comment> \<open>this call of \<^verbatim>\<open>playTTS\<close> called \<^verbatim>\<open>pcmToAudioBuffer\<close>\<close>
  | OnEnded nat                    \<comment> \<open>the \<^verbatim>\<open>onEnded\<close> callback of this call was invoked\<close>
  | PlayRejected nat js_error      \<comment> \<open>the promise of this call of \<^verbatim>\<open>playTTS\<close> was rejected\<close>

record world =
  api_key :: bool
  autoplay_policy :: ctx_state
  audioContext :: "ctx_state option"
  currentSource :: "nat option"
  audioCache :: "string \<rightharpoonup> byte list"
  pendingRequests :: "string \<rightharpoonup> nat"
  settled :: "nat set"
  fetches :: "nat \<rightharpoonup> fetch"
  plays :: "nat \<rightharpoonup> play_call"
  sources :: "nat \<rightharpoonup> source_node"
  next_promise :: nat
  next_call :: nat
  trace :: "log_event list"

definition init :: "bool \<Rightarrow> ctx_state \<Rightarrow> world" where
  "init key policy =
     \<lparr>api_key = key, autoplay_policy = policy, audioContext = None, currentSource = None,
      audioCache = Map.empty, pendingRequests = Map.empty, settled = {},
      fetches = Map.empty, plays = Map.empty, sources = Map.empty,
      next_promise = 0, next_call = 0, trace = []\<rparr>"

definition emit :: "log_event \<Rightarrow> world \<Rightarrow> world" where
  "emit e w = w\<lparr>trace := trace w @ [e]\<rparr>"

definition is_settled :: "world \<Rightarrow> awaitable \<Rightarrow> bool" where
  "is_settled w a = (case a of Resolved \<Rightarrow> True | Promise p \<Rightarrow> p \<in> settled w)"

text \<open>A node is audible from \<^verbatim>\<open>start(0)\<close> until it is stopped or has ended.\<close>

definition audible :: "world \<Rightarrow> nat \<Rightarrow> bool" where
  "audible w h =
     (case sources w h of None \<Rightarrow> False | Some src \<Rightarrow> \<not> s_stopped src \<and> \<not> s_ended src)"

subsection \<open>\<^verbatim>\<open>getAI\<close> and \<^verbatim>\<open>getAudioContext\<close>\<close>

definition getAI :: "world \<Rightarrow> js_error + unit" where
  "getAI w = (if \<not> api_key w then Inl ApiKeyMissing else Inr ())"

definition getAudioContext :: "world \<Rightarrow> ctx_state \<times> world" where
  "getAudioContext w =
     (case audioContext w of
        None \<Rightarrow> (autoplay_policy w, w\<lparr>audioContext := Some (autoplay_policy w)\<rparr>)
      | Some st \<Rightarrow> (st, w))"

subsection \<open>\<^verbatim>\<open>prefetchTTS\<close>\<close>

text \<open>
  \<^verbatim>\<open>
  export const prefetchTTS = async (text, voiceName = 'Kore') => {
    if (audioCache.has(text)) return Promise.resolve();
    if (pendingRequests.has(text)) { return pendingRequests.get(text); }
    const fetchPromise = (async () => {
      try {
        const ai = getAI();
        const response = await ai.models.generateContent({...});
        const base64Audio = response.candidates?.[0]?.content?.parts?.[0]?.inlineData?.data;
        if (base64Audio) {
          const pcmBytes = decodeBase64(base64Audio);
          audioCache.set(text, pcmBytes);
        }
      } catch (error) {
        console.error("TTS Prefetch Error:", error);
      } finally {
        pendingRequests.delete(text);
      }
    })();
    pendingRequests.set(text, fetchPromise);
    return fetchPromise;
  };
  \<close>
  The inner function runs at once up to its \<^verbatim>\<open>await\<close>.  When \<^verbatim>\<open>getAI\<close> throws,
  it runs \<^verbatim>\<open>catch\<close> and \<^verbatim>\<open>finally\<close> and returns before
  \<^verbatim>\<open>pendingRequests.set\<close> is reached.  Otherwise it is suspended with the
  request in flight, and \<open>fetch_complete\<close> is the part after the \<^verbatim>\<open>await\<close>.
  The outcome of \<^verbatim>\<open>generateContent\<close> is either a rejection or a response, of
  which the code reads only the optional-chained \<^verbatim>\<open>inlineData.data\<close>.
\<close>

datatype synth_outcome = Rejects | Responds "string option"

definition fetch_finally :: "string \<Rightarrow> nat \<Rightarrow> world \<Rightarrow> world" where
  "fetch_finally text p w =
     w\<lparr>pendingRequests := (pendingRequests w)(text := None), settled := insert p (settled w)\<rparr>"

definition prefetchTTS :: "string \<Rightarrow> voice \<Rightarrow> world \<Rightarrow> awaitable \<times> world" where
  "prefetchTTS text voiceName w =
     (if audioCache w text \<noteq> None then (Resolved, w)
      else case pendingRequests w text of
        Some p \<Rightarrow> (Promise p, w)
      | None \<Rightarrow>
          (let p = next_promise w;
               w1 = w\<lparr>next_promise := Suc p\<rparr>;
               w2 = (case getAI w1 of
                       Inl e \<Rightarrow> fetch_finally text p (emit (ConsoleError e) w1)
                     | Inr _ \<Rightarrow>
                         emit (Synthesize text voiceName)
                           (w1\<lparr>fetches := (fetches w1)(p \<mapsto> \<lparr>f_text = text, f_voice = voiceName\<rparr>)\<rparr>))
           in (Promise p, w2\<lparr>pendingRequests := (pendingRequests w2)(text \<mapsto> p)\<rparr>)))"

definition fetch_body :: "string \<Rightarrow> synth_outcome \<Rightarrow> world \<Rightarrow> world" where
  "fetch_body text outcome w =
     (case outcome of
        Rejects \<Rightarrow> emit (ConsoleError SynthesisError) w
      | Responds base64Audio \<Rightarrow>
          (case base64Audio of
             None \<Rightarrow> w
           | Some b64 \<Rightarrow>
               if b64 = [] then w
               else (case decodeBase64 b64 of
                       Inl e \<Rightarrow> emit (ConsoleError e) w
                     | Inr pcmBytes \<Rightarrow>
                         emit (DecodeBase64 text)
                           (w\<lparr>audioCache := (audioCache w)(text \<mapsto> pcmBytes)\<rparr>))))"

definition fetch_complete :: "nat \<Rightarrow> fetch \<Rightarrow> synth_outcome \<Rightarrow> world \<Rightarrow> world" where
  "fetch_complete p f outcome w =
     fetch_finally (f_text f) p
       (fetch_body (f_text f) outcome (w\<lparr>fetches := (fetches w)(p := None)\<rparr>))"

subsection \<open>\<^verbatim>\<open>stopAudio\<close>\<close>

text \<open>
  \<^verbatim>\<open>
  export const stopAudio = () => {
    if (currentSource) {
      try { currentSource.stop(); } catch (e) { /* Ignore errors if already stopped */ }
      currentSource = null;
    }
  };
  \<close>
  \<^verbatim>\<open>stop()\<close> of a node is taken to throw whenever the node is not playing any
  more, which is the most that the comment in the code allows for.
\<close>

definition source_stop :: "nat \<Rightarrow> world \<Rightarrow> js_error + world" where
  "source_stop h w =
     (case sources w h of
        None \<Rightarrow> Inl InvalidStateError
      | Some src \<Rightarrow>
          if s_stopped src \<or> s_ended src then Inl InvalidStateError
          else Inr (w\<lparr>sources := (sources w)(h \<mapsto> src\<lparr>s_stopped := True\<rparr>)\<rparr>))"

definition stopAudio :: "world \<Rightarrow> world" where
  "stopAudio w =
     (case currentSource w of
        None \<Rightarrow> w
      | Some h \<Rightarrow>
          (case source_stop h w of Inl e \<Rightarrow> w | Inr w' \<Rightarrow> w')\<lparr>currentSource := None\<rparr>)"

subsection \<open>\<^verbatim>\<open>playTTS\<close>\<close>

text \<open>
  \<^verbatim>\<open>
  export const playTTS = async (text, onEnded?, voiceName = 'Kore') => {
    const ctx = getAudioContext();
    stopAudio();
    if (ctx.state === 'suspended') { await ctx.resume(); }
    let pcmBytes = audioCache.get(text);
    if (!pcmBytes) {
      if (pendingRequests.has(text)) {
        await pendingRequests.get(text);
        pcmBytes = audioCache.get(text);
      } else {
        await prefetchTTS(text, voiceName);
        pcmBytes = audioCache.get(text);
      }
    }
    if (pcmBytes) {
      const audioBuffer = pcmToAudioBuffer(pcmBytes, ctx, 24000);
      const source = ctx.createBufferSource();
      source.buffer = audioBuffer;
      source.connect(ctx.destination);
      currentSource = source;
      source.onended = () => {
        if (currentSource === source) { currentSource = null; }
        if (onEnded) onEnded();
      };
      source.start(0);
    } else {
      if (onEnded) onEnded();
    }
  };
  \<close>
  \<open>playTTS\<close> is the call up to its first \<^verbatim>\<open>await\<close> (or to its end when the
  text is cached and the context is running), \<open>play_resolve\<close> the part from
  \<^verbatim>\<open>audioCache.get(text)\<close> on, and \<open>play_output\<close> the final conditional.
\<close>

definition play_output :: "nat \<Rightarrow> play_call \<Rightarrow> byte list option \<Rightarrow> world \<Rightarrow> world" where
  "play_output c t pcmBytes w =
     (case pcmBytes of
        Some bytes \<Rightarrow>
          (let w1 = emit (PcmToAudioBuffer c (p_text t)) w in
           case pcmToAudioBuffer bytes 24000 of
             Inl e \<Rightarrow> emit (PlayRejected c e) w1
           | Inr audioBuffer \<Rightarrow>
               w1\<lparr>sources := (sources w1)(c \<mapsto>
                      \<lparr>s_buffer = audioBuffer, s_onEnded = p_onEnded t,
                       s_stopped = False, s_ended = False\<rparr>),
                  currentSource := Some c\<rparr>)
      | None \<Rightarrow> if p_onEnded t then emit (OnEnded c) w else w)"

definition play_resolve :: "nat \<Rightarrow> play_call \<Rightarrow> world \<Rightarrow> world" where
  "play_resolve c t w =
     (case audioCache w (p_text t) of
        Some bytes \<Rightarrow> play_output c t (Some bytes) w
      | None \<Rightarrow>
          (case pendingRequests w (p_text t) of
             Some p \<Rightarrow> w\<lparr>plays := (plays w)(c \<mapsto> t\<lparr>p_pc := AwaitAudio (Promise p)\<rparr>)\<rparr>
           | None \<Rightarrow>
               (case prefetchTTS (p_text t) (p_voice t) w of
                  (a, w') \<Rightarrow> w'\<lparr>plays := (plays w')(c \<mapsto> t\<lparr>p_pc := AwaitAudio a\<rparr>)\<rparr>)))"

definition playTTS :: "string \<Rightarrow> bool \<Rightarrow> voice \<Rightarrow> world \<Rightarrow> world" where
  "playTTS text onEnded voiceName w =
     (let c = next_call w;
          t = \<lparr>p_text = text, p_onEnded = onEnded, p_voice = voiceName, p_pc = AwaitResume\<rparr>
      in case getAudioContext (w\<lparr>next_call := Suc c\<rparr>) of
           (st, w1) \<Rightarrow>
             (let w2 = stopAudio w1
              in if st = Suspended then w2\<lparr>plays := (plays w2)(c \<mapsto> t)\<rparr>
                 else play_resolve c t w2))"

text \<open>The \<^verbatim>\<open>onended\<close> handler installed by \<^verbatim>\<open>playTTS\<close> on the node of call \<open>c\<close>.\<close>

definition source_onended :: "nat \<Rightarrow> source_node \<Rightarrow> world \<Rightarrow> world" where
  "source_onended c src w =
     (let w1 = w\<lparr>sources := (sources w)(c \<mapsto> src\<lparr>s_ended := True\<rparr>)\<rparr>;
          w2 = (if currentSource w1 = Some c then w1\<lparr>currentSource := None\<rparr> else w1)
      in if s_onEnded src then emit (OnEnded c) w2 else w2)"

subsection \<open>The event loop\<close>

text \<open>
  One step runs one uninterrupted segment: a call from the user interface, or the
  continuation of a suspended function whose awaited promise has been settled,
  or an event of the platform (the synthesis request completes, the context has
  resumed or changes state, a node dispatches \<^verbatim>\<open>ended\<close>).  A step that is not
  enabled yields \<open>None\<close>.
\<close>

datatype event =
    CallPrefetch string voice
  | CallStop
  | CallPlay string bool voice
  | ResumeDone nat
  | FetchDone nat synth_outcome
  | AudioReady nat
  | SourceEnded nat
  | ContextState ctx_state

definition step :: "world \<Rightarrow> event \<Rightarrow> world option" where
  "step w e =
     (case e of
        CallPrefetch text voiceName \<Rightarrow> Some (snd (prefetchTTS text voiceName w))
      | CallStop \<Rightarrow> Some (stopAudio w)
      | CallPlay text onEnded voiceName \<Rightarrow> Some (playTTS text onEnded voiceName w)
      | ResumeDone c \<Rightarrow>
          (case plays w c of
             None \<Rightarrow> None
           | Some t \<Rightarrow>
               (case p_pc t of
                  AwaitResume \<Rightarrow>
                    Some (play_resolve c t
                            (w\<lparr>plays := (plays w)(c := None), audioContext := Some Running\<rparr>))
                | AwaitAudio a \<Rightarrow> None))
      | FetchDone p outcome \<Rightarrow>
          (case fetches w p of
             None \<Rightarrow> None
           | Some f \<Rightarrow> Some (fetch_complete p f outcome w))
      | AudioReady c \<Rightarrow>
          (case plays w c of
             None \<Rightarrow> None
           | Some t \<Rightarrow>
               (case p_pc t of
                  AwaitResume \<Rightarrow> None
                | AwaitAudio a \<Rightarrow>
                    if is_settled w a
                    then Some (play_output c t (audioCache w (p_text t))
                                 (w\<lparr>plays := (plays w)(c := None)\<rparr>))
                    else None))
      | SourceEnded c \<Rightarrow>
          (case sources w c of
             None \<Rightarrow> None
           | Some src \<Rightarrow> if s_ended src then None else Some (source_onended c src w))
      | ContextState st \<Rightarrow>
          (case audioContext w of
             None \<Rightarrow> None
           | Some _ \<Rightarrow> Some (w\<lparr>audioContext := Some st\<rparr>)))"

fun run :: "world \<Rightarrow> event list \<Rightarrow> world option" where
  "run w [] = Some w"
| "run w (e # es) = (case step w e of None \<Rightarrow> None | Some w' \<Rightarrow> run w' es)"

inductive reachable :: "world \<Rightarrow> bool" where
  reachable_init: "reachable (init key policy)"
| reachable_step: "reachable w \<Longrightarrow> step w e = Some w' \<Longrightarrow> reachable w'"

subsection \<open>Observations on the trace\<close>

definition is_synth :: "string \<Rightarrow> log_event \<Rightarrow> bool" where
  "is_synth text e = (case e of Synthesize t v \<Rightarrow> t = text | _ \<Rightarrow> False)"

definition synth_calls :: "string \<Rightarrow> log_event list \<Rightarrow> nat" where
  "synth_calls text tr = length (filter (is_synth text) tr)"

definition is_pcm :: "string \<Rightarrow> log_event \<Rightarrow> bool" where
  "is_pcm text e = (case e of PcmToAudioBuffer c t \<Rightarrow> t = text | _ \<Rightarrow> False)"

definition pcm_calls :: "string \<Rightarrow> log_event list \<Rightarrow> nat" where
  "pcm_calls text tr = length (filter (is_pcm text) tr)"

text \<open>Several calls of \<^verbatim>\<open>prefetchTTS\<close> for one text, issued one after the other
  with nothing in between; the awaitables they return are collected.\<close>

fun prefetch_all :: "string \<Rightarrow> voice list \<Rightarrow> world \<Rightarrow> awaitable list \<times> world" where
  "prefetch_all text [] w = ([], w)"
| "prefetch_all text (v # vs) w =
     (case prefetchTTS text v w of
        (a, w1) \<Rightarrow> (case prefetch_all text vs w1 of (as, w2) \<Rightarrow> (a # as, w2)))"

text \<open>The value of a little-endian signed 16-bit sample, written out arithmetically.\<close>

definition le_signed16 :: "byte \<Rightarrow> byte \<Rightarrow> int" where
  "le_signed16 lo hi =
     (let u = uint lo + 256 * uint hi in if u < 32768 then u else u - 65536)"

text \<open>
  Executions in which calls of \<^verbatim>\<open>playTTS\<close> do not overlap: a call begins only
  when no earlier call is still suspended at an \<^verbatim>\<open>await\<close>.
\<close>

definition sequential :: "world \<Rightarrow> event \<Rightarrow> bool" where
  "sequential w e = (case e of CallPlay text onEnded voiceName \<Rightarrow> plays w = Map.empty | _ \<Rightarrow> True)"

inductive seq_reachable :: "world \<Rightarrow> bool" where
  seq_init: "seq_reachable (init key policy)"
| seq_step: "seq_reachable w \<Longrightarrow> sequential w e \<Longrightarrow> step w e = Some w' \<Longrightarrow> seq_reachable w'"

subsection \<open>Invariants of the event loop\<close>

text \<open>
  A request in flight for a text is registered in \<^verbatim>\<open>pendingRequests\<close> under that
  text, which is not cached; promise numbers not yet issued are unused; and the
  bytes of a text have been decoded once if the text is cached, never otherwise.
\<close>

definition fetch_inv :: "world \<Rightarrow> bool" where
  "fetch_inv w \<longleftrightarrow>
     (\<forall>p f. fetches w p = Some f \<longrightarrow>
        pendingRequests w (f_text f) = Some p \<and> audioCache w (f_text f) = None) \<and>
     (\<forall>p. next_promise w \<le> p \<longrightarrow> fetches w p = None) \<and>
     (\<forall>text. count_list (trace w) (DecodeBase64 text) =
        (if audioCache w text = None then 0 else 1))"

text \<open>
  A call of \<^verbatim>\<open>playTTS\<close> that is suspended has neither a node nor an invoked
  callback; the callback of a call with a node has been invoked exactly when
  the node has dispatched \<^verbatim>\<open>ended\<close> and a callback was passed; call numbers not
  yet issued are unused; the tracked node exists.
\<close>

definition play_inv :: "world \<Rightarrow> bool" where
  "play_inv w \<longleftrightarrow>
     (\<forall>c. next_call w \<le> c \<longrightarrow>
        plays w c = None \<and> sources w c = None \<and> count_list (trace w) (OnEnded c) = 0) \<and>
     (\<forall>c t. plays w c = Some t \<longrightarrow>
        sources w c = None \<and> count_list (trace w) (OnEnded c) = 0) \<and>
     (\<forall>c src. sources w c = Some src \<longrightarrow>
        count_list (trace w) (OnEnded c) = (if s_ended src \<and> s_onEnded src then 1 else 0)) \<and>
     (\<forall>c. count_list (trace w) (OnEnded c) \<le> 1) \<and>
     (\<forall>h. currentSource w = Some h \<longrightarrow> sources w h \<noteq> None)"

text \<open>
  Without overlapping calls of \<^verbatim>\<open>playTTS\<close>: an audible node is the tracked one,
  and while a call is suspended it is the only one and nothing is audible.
\<close>

definition seq_inv :: "world \<Rightarrow> bool" where
  "seq_inv w \<longleftrightarrow>
     (\<forall>h. audible w h \<longrightarrow> currentSource w = Some h) \<and>
     (\<forall>c t. plays w c = Some t \<longrightarrow>
        (\<forall>h. \<not> audible w h) \<and> (\<forall>d. plays w d \<noteq> None \<longrightarrow> d = c))"

subsection \<open>Lookups used in the statements\<close>

text \<open>\<^verbatim>\<open>audioCache.get(text)\<close>, and the nodes that are audible in a state.\<close>

definition cached :: "string \<Rightarrow> world \<Rightarrow> byte list option" where
  "cached text w = audioCache w text"

definition audible_nodes :: "world \<Rightarrow> nat list" where
  "audible_nodes w = filter (audible w) [0..<next_call w]"

subsection \<open>Two states used as examples\<close>

text \<open>
  \<open>two_plays_pending\<close> is the state after \<^verbatim>\<open>playTTS("a", cb)\<close> followed at once
  by \<^verbatim>\<open>playTTS("b", cb)\<close> in the initial state with a running context: both calls
  are suspended, each waiting for the request it has started.  \<open>hi_cached\<close> is
  the state after \<^verbatim>\<open>prefetchTTS("hi")\<close> has completed with the payload \<^verbatim>\<open>AAD/fw==\<close>.
\<close>

definition two_plays_pending :: world where
  "two_plays_pending =
     \<lparr>api_key = True, autoplay_policy = Running, audioContext = Some Running,
      currentSource = None, audioCache = Map.empty,
      pendingRequests = [''a'' \<mapsto> 0, ''b'' \<mapsto> 1], settled = {},
      fetches = [0 \<mapsto> \<lparr>f_text = ''a'', f_voice = Kore\<rparr>,
                 1 \<mapsto> \<lparr>f_text = ''b'', f_voice = Kore\<rparr>],
      plays = [0 \<mapsto> \<lparr>p_text = ''a'', p_onEnded = True, p_voice = Kore,
                       p_pc = AwaitAudio (Promise 0)\<rparr>,
               1 \<mapsto> \<lparr>p_text = ''b'', p_onEnded = True, p_voice = Kore,
                       p_pc = AwaitAudio (Promise 1)\<rparr>],
      sources = Map.empty, next_promise = 2, next_call = 2,
      trace = [Synthesize ''a'' Kore, Synthesize ''b'' Kore]\<rparr>"

definition hi_cached :: world where
  "hi_cached =
     \<lparr>api_key = True, autoplay_policy = Running, audioContext = None,
      currentSource = None, audioCache = [''hi'' \<mapsto> [0, 0, 255, 127]],
      pendingRequests = Map.empty, settled = {0},
      fetches = Map.empty, plays = Map.empty, sources = Map.empty,
      next_promise = 1, next_call = 0,
      trace = [Synthesize ''hi'' Kore, DecodeBase64 ''hi'']\<rparr>"

section \<open>Properties of the decoder\<close>

lemma length_normalize_loop: "length (normalize_loop i n d ch) = length ch"
  by (induction i n d ch rule: normalize_loop.induct) (subst normalize_loop.simps, simp)

lemma nth_normalize_loop:
  "j < length ch \<Longrightarrow> normalize_loop i n d ch ! j =
     (if i \<le> j \<and> j < n then normalize_sample (d ! j) else ch ! j)"
proof (induction i n d ch rule: normalize_loop.induct)
  case (1 i n d ch)
  show ?case
  proof (cases "i < n")
    case True
    have "normalize_loop i n d ch ! j = normalize_loop (Suc i) n d (ch[i := normalize_sample (d ! i)]) ! j"
      using True by (subst normalize_loop.simps) simp
    also have "\<dots> = (if Suc i \<le> j \<and> j < n then normalize_sample (d ! j) else (ch[i := normalize_sample (d ! i)]) ! j)"
      using 1 True by simp
    also have "\<dots> = (if i \<le> j \<and> j < n then normalize_sample (d ! j) else ch ! j)"
      using True "1.prems" by (cases "j = i") (auto simp: nth_list_update)
    finally show ?thesis .
  next
    case False
    then show ?thesis by (subst normalize_loop.simps) simp
  qed
qed

lemma length_decodeBase64_loop: "length (decodeBase64_loop i n s bs) = length bs"
  by (induction i n s bs rule: decodeBase64_loop.induct) (subst decodeBase64_loop.simps, simp)

lemma push_and0: "push_bit 8 (ucast (hi::byte) :: int16) AND ucast (lo::byte) = 0"
proof (rule bit_eqI)
  fix n
  have "bit lo n \<Longrightarrow> n < 8" using bit_imp_le_length[of lo n] by simp
  then show "bit (push_bit 8 (ucast hi :: int16) AND ucast lo) n = bit (0::int16) n"
    by (auto simp: bit_simps)
qed

lemma uint_ucast8: "uint (ucast (b::byte) :: int16) = uint b"
  by (simp add: uint_up_ucast is_up)

lemma uint_byte_bound: "uint (b::byte) < 256" "0 \<le> uint b"
  using uint_lt2p[of b] by simp_all

lemma uint_int16_of_bytes: "uint (int16_of_bytes lo hi) = uint lo + 256 * uint hi"
proof -
  have "int16_of_bytes lo hi = ucast hi * 256 + ucast lo"
    unfolding int16_of_bytes_def using push_and0[of hi lo]
    by (simp add: disjunctive_add_eq_or push_bit_eq_mult)
  then have "uint (int16_of_bytes lo hi) = (uint hi * 256 + uint lo) mod 65536"
    by (simp add: uint_word_ariths uint_ucast8 mod_simps)
  moreover have "uint hi * 256 + uint lo < 65536" "0 \<le> uint hi * 256 + uint lo"
    using uint_byte_bound[of hi] uint_byte_bound[of lo] by simp_all
  ultimately show ?thesis by simp
qed

lemma sint_int16: "sint (w :: int16) = (if uint w < 32768 then uint w else uint w - 65536)"
proof -
  have u: "uint w = sint w mod 65536"
    using uint_sint[of w] by (simp add: take_bit_eq_mod)
  have b: "- 32768 \<le> sint w" "sint w < 32768"
    using sint_ge[of w] sint_lt[of w] by simp_all
  show ?thesis
  proof (cases "0 \<le> sint w")
    case True
    then have "uint w = sint w" using u b by simp
    then show ?thesis using b by simp
  next
    case False
    have "sint w mod 65536 = (sint w + 65536) mod 65536" by simp
    also have "\<dots> = sint w + 65536"
      using b False by (intro mod_pos_pos_trivial) simp_all
    finally have "sint w mod 65536 = sint w + 65536" .
    then show ?thesis using u b False by simp
  qed
qed

section \<open>Invariants of the event loop, proved\<close>

lemma count_list_snoc: "count_list (xs @ [e]) x = count_list xs x + (if e = x then 1 else 0)"
  by (induction xs) auto

lemma fetch_inv_init: "fetch_inv (init key policy)"
  by (simp add: fetch_inv_def init_def)

lemma fetch_inv_frame:
  assumes "fetch_inv w"
    and "fetches w' = fetches w" and "pendingRequests w' = pendingRequests w"
    and "audioCache w' = audioCache w" and "next_promise w' = next_promise w"
    and "\<And>text. count_list (trace w') (DecodeBase64 text) = count_list (trace w) (DecodeBase64 text)"
  shows "fetch_inv w'"
  using assms unfolding fetch_inv_def by simp

lemma fetch_inv_prefetch:
  assumes "fetch_inv w"
  shows "fetch_inv (snd (prefetchTTS text v w))"
proof (cases "audioCache w text \<noteq> None \<or> pendingRequests w text \<noteq> None")
  case True
  then have "snd (prefetchTTS text v w) = w"
    by (auto simp: prefetchTTS_def)
  then show ?thesis using assms by simp
next
  case False
  then have c: "audioCache w text = None" and q: "pendingRequests w text = None" by auto
  show ?thesis
  proof (cases "api_key w")
    case True
    then show ?thesis using assms c q
      unfolding fetch_inv_def
      by (auto simp: prefetchTTS_def getAI_def emit_def count_list_snoc Let_def)
  next
    case False
    then show ?thesis using assms c q
      unfolding fetch_inv_def
      by (auto simp: prefetchTTS_def getAI_def emit_def fetch_finally_def count_list_snoc Let_def)
  qed
qed

lemma fetch_inv_complete:
  assumes "fetch_inv w" and "fetches w p = Some f"
  shows "fetch_inv (fetch_complete p f outcome w)"
proof -
  have a: "pendingRequests w (f_text f) = Some p" "audioCache w (f_text f) = None"
    using assms unfolding fetch_inv_def by auto
  have b: "\<And>q g. fetches w q = Some g \<Longrightarrow> q \<noteq> p \<Longrightarrow> f_text g \<noteq> f_text f"
    using assms unfolding fetch_inv_def by (metis option.inject)
  show ?thesis using assms a b
    unfolding fetch_inv_def
    by (auto simp: fetch_complete_def fetch_body_def fetch_finally_def emit_def count_list_snoc
             split: synth_outcome.splits option.splits sum.splits)
qed

lemma stopAudio_fields [simp]:
  "fetches (stopAudio w) = fetches w" "pendingRequests (stopAudio w) = pendingRequests w"
  "audioCache (stopAudio w) = audioCache w" "next_promise (stopAudio w) = next_promise w"
  "trace (stopAudio w) = trace w" "plays (stopAudio w) = plays w"
  "next_call (stopAudio w) = next_call w" "settled (stopAudio w) = settled w"
  "api_key (stopAudio w) = api_key w" "audioContext (stopAudio w) = audioContext w"
  "autoplay_policy (stopAudio w) = autoplay_policy w"
  "currentSource (stopAudio w) = None"
  by (simp_all add: stopAudio_def source_stop_def split: option.splits)

lemma getAudioContext_fields:
  "getAudioContext w = (st, w1) \<Longrightarrow>
     fetches w1 = fetches w \<and> pendingRequests w1 = pendingRequests w \<and>
     audioCache w1 = audioCache w \<and> next_promise w1 = next_promise w \<and>
     trace w1 = trace w \<and> plays w1 = plays w \<and> next_call w1 = next_call w \<and>
     settled w1 = settled w \<and> api_key w1 = api_key w \<and> sources w1 = sources w \<and>
     currentSource w1 = currentSource w \<and> audioContext w1 = Some st"
  by (auto simp: getAudioContext_def split: option.splits)

lemma play_output_fields [simp]:
  "fetches (play_output c t b w) = fetches w"
  "pendingRequests (play_output c t b w) = pendingRequests w"
  "audioCache (play_output c t b w) = audioCache w"
  "next_promise (play_output c t b w) = next_promise w"
  "plays (play_output c t b w) = plays w"
  "next_call (play_output c t b w) = next_call w"
  "settled (play_output c t b w) = settled w"
  "api_key (play_output c t b w) = api_key w"
  "audioContext (play_output c t b w) = audioContext w"
  by (simp_all add: play_output_def emit_def Let_def split: option.splits sum.splits)

lemma play_output_decode_count [simp]:
  "count_list (trace (play_output c t b w)) (DecodeBase64 text) = count_list (trace w) (DecodeBase64 text)"
  by (simp add: play_output_def emit_def Let_def count_list_snoc split: option.splits sum.splits)

lemma fetch_inv_play_output: "fetch_inv w \<Longrightarrow> fetch_inv (play_output c t b w)"
  by (erule fetch_inv_frame) simp_all

lemma fetch_inv_plays_upd: "fetch_inv w \<Longrightarrow> fetch_inv (w\<lparr>plays := x\<rparr>)"
  by (erule fetch_inv_frame) simp_all

lemma fetch_inv_play_resolve: 
  assumes "fetch_inv w" shows "fetch_inv (play_resolve c t w)"
proof -
  have "fetch_inv (snd (prefetchTTS (p_text t) (p_voice t) w))"
    using assms by (rule fetch_inv_prefetch)
  then show ?thesis using assms
    by (auto simp: play_resolve_def fetch_inv_play_output fetch_inv_plays_upd
          split: option.splits prod.splits)
qed

lemma fetch_inv_playTTS:
  assumes "fetch_inv w" shows "fetch_inv (playTTS text cb v w)"
proof -
  obtain st w1 where g: "getAudioContext (w\<lparr>next_call := Suc (next_call w)\<rparr>) = (st, w1)"
    by (cases "getAudioContext (w\<lparr>next_call := Suc (next_call w)\<rparr>)")
  have "fetch_inv w1"
    using assms getAudioContext_fields[OF g] by (elim fetch_inv_frame) simp_all
  then have "fetch_inv (stopAudio w1)"
    by (elim fetch_inv_frame) simp_all
  then show ?thesis using g
    by (simp add: playTTS_def Let_def fetch_inv_play_resolve fetch_inv_plays_upd)
qed

lemma source_onended_fields [simp]:
  "fetches (source_onended c src w) = fetches w"
  "pendingRequests (source_onended c src w) = pendingRequests w"
  "audioCache (source_onended c src w) = audioCache w"
  "next_promise (source_onended c src w) = next_promise w"
  "plays (source_onended c src w) = plays w"
  "next_call (source_onended c src w) = next_call w"
  "settled (source_onended c src w) = settled w"
  "api_key (source_onended c src w) = api_key w"
  by (simp_all add: source_onended_def emit_def Let_def)

lemma source_onended_decode_count [simp]:
  "count_list (trace (source_onended c src w)) (DecodeBase64 text) = count_list (trace w) (DecodeBase64 text)"
  by (simp add: source_onended_def emit_def Let_def count_list_snoc)

lemma fetch_inv_step:
  assumes "fetch_inv w" and "step w e = Some w'"
  shows "fetch_inv w'"
proof (cases e)
  case (CallPrefetch tx v)
  then show ?thesis using assms by (auto simp: step_def fetch_inv_prefetch)
next
  case CallStop
  then have "w' = stopAudio w" using assms by (simp add: step_def)
  then show ?thesis using assms(1) by (auto elim: fetch_inv_frame)
next
  case (CallPlay tx cb v)
  then show ?thesis using assms by (auto simp: step_def fetch_inv_playTTS)
next
  case (ResumeDone c)
  have "\<And>x y. fetch_inv (w\<lparr>plays := x, audioContext := y\<rparr>)"
    using assms(1) by (elim fetch_inv_frame) simp_all
  then show ?thesis using assms ResumeDone
    by (auto simp: step_def fetch_inv_play_resolve split: option.splits play_pc.splits)
next
  case (FetchDone p outcome)
  then show ?thesis using assms
    by (auto simp: step_def fetch_inv_complete split: option.splits)
next
  case (AudioReady c)
  then show ?thesis using assms
    by (auto simp: step_def fetch_inv_play_output fetch_inv_plays_upd
          split: option.splits play_pc.splits if_splits)
next
  case (SourceEnded c)
  then obtain src where "w' = source_onended c src w"
    using assms by (auto simp: step_def split: option.splits if_splits)
  then show ?thesis using assms(1) by (auto elim: fetch_inv_frame)
next
  case (ContextState st)
  then have "w' = w\<lparr>audioContext := Some st\<rparr>"
    using assms by (auto simp: step_def split: option.splits)
  then show ?thesis using assms(1) by (auto elim: fetch_inv_frame)
qed

lemma reachable_fetch_inv: "reachable w \<Longrightarrow> fetch_inv w"
  by (induction rule: reachable.induct) (auto intro: fetch_inv_init fetch_inv_step)

lemma play_inv_init: "play_inv (init key policy)"
  by (simp add: play_inv_def init_def)

lemma play_inv_frame:
  assumes "play_inv w"
    and "plays w' = plays w" and "sources w' = sources w"
    and "next_call w' = next_call w" and "currentSource w' = currentSource w"
    and "\<And>c. count_list (trace w') (OnEnded c) = count_list (trace w) (OnEnded c)"
  shows "play_inv w'"
  using assms unfolding play_inv_def by simp

lemma prefetchTTS_play_fields [simp]:
  "plays (snd (prefetchTTS tx v w)) = plays w"
  "sources (snd (prefetchTTS tx v w)) = sources w"
  "next_call (snd (prefetchTTS tx v w)) = next_call w"
  "currentSource (snd (prefetchTTS tx v w)) = currentSource w"
  "audioContext (snd (prefetchTTS tx v w)) = audioContext w"
  "count_list (trace (snd (prefetchTTS tx v w))) (OnEnded c) = count_list (trace w) (OnEnded c)"
  by (simp_all add: prefetchTTS_def getAI_def emit_def fetch_finally_def Let_def count_list_snoc
        split: option.splits)

lemma fetch_complete_play_fields [simp]:
  "plays (fetch_complete p f outcome w) = plays w"
  "sources (fetch_complete p f outcome w) = sources w"
  "next_call (fetch_complete p f outcome w) = next_call w"
  "currentSource (fetch_complete p f outcome w) = currentSource w"
  "audioContext (fetch_complete p f outcome w) = audioContext w"
  "count_list (trace (fetch_complete p f outcome w)) (OnEnded c) = count_list (trace w) (OnEnded c)"
  by (simp_all add: fetch_complete_def fetch_body_def emit_def fetch_finally_def count_list_snoc
        split: synth_outcome.splits option.splits sum.splits)

lemma sources_stopAudio:
  "sources (stopAudio w) c =
     (case sources w c of
        None \<Rightarrow> None
      | Some src \<Rightarrow>
          Some (if currentSource w = Some c \<and> \<not> s_stopped src \<and> \<not> s_ended src
                then src\<lparr>s_stopped := True\<rparr> else src))"
  by (auto simp: stopAudio_def source_stop_def split: option.splits)

lemma play_inv_stopAudio: "play_inv w \<Longrightarrow> play_inv (stopAudio w)"
  unfolding play_inv_def
  by (auto simp: sources_stopAudio split: option.splits if_splits)

lemma play_inv_play_output:
  assumes "play_inv w" and "plays w c = None" and "sources w c = None"
    and "count_list (trace w) (OnEnded c) = 0" and "c < next_call w"
  shows "play_inv (play_output c t b w)"
proof (cases b)
  case None
  then show ?thesis using assms unfolding play_inv_def
    by (auto simp: play_output_def emit_def count_list_snoc)
next
  case (Some bytes)
  show ?thesis
  proof (cases "pcmToAudioBuffer bytes 24000")
    case (Inl e)
    then show ?thesis using assms Some unfolding play_inv_def
      by (auto simp: play_output_def emit_def count_list_snoc Let_def)
  next
    case (Inr buf)
    then show ?thesis using assms Some unfolding play_inv_def
      by (auto simp: play_output_def emit_def count_list_snoc Let_def)
  qed
qed

lemma play_inv_suspend:
  assumes "play_inv w" and "sources w c = None"
    and "count_list (trace w) (OnEnded c) = 0" and "c < next_call w"
  shows "play_inv (w\<lparr>plays := (plays w)(c \<mapsto> t)\<rparr>)"
  using assms unfolding play_inv_def by auto

lemma play_inv_play_resolve:
  assumes "play_inv w" and "plays w c = None" and "sources w c = None"
    and "count_list (trace w) (OnEnded c) = 0" and "c < next_call w"
  shows "play_inv (play_resolve c t w)"
proof (cases "audioCache w (p_text t)")
  case (Some bytes)
  then show ?thesis using assms by (simp add: play_resolve_def play_inv_play_output)
next
  case None
  show ?thesis
  proof (cases "pendingRequests w (p_text t)")
    case (Some p)
    then show ?thesis using None assms by (simp add: play_resolve_def play_inv_suspend)
  next
    case N2: None
    obtain a w1 where pf: "prefetchTTS (p_text t) (p_voice t) w = (a, w1)"
      by (cases "prefetchTTS (p_text t) (p_voice t) w")
    then have w1: "w1 = snd (prefetchTTS (p_text t) (p_voice t) w)" by simp
    have "play_inv w1" using assms(1) unfolding w1 by (elim play_inv_frame) simp_all
    then have "play_inv (w1\<lparr>plays := (plays w1)(c \<mapsto> t\<lparr>p_pc := AwaitAudio a\<rparr>)\<rparr>)"
      using assms unfolding w1 by (intro play_inv_suspend) simp_all
    then show ?thesis using None N2 pf by (simp add: play_resolve_def)
  qed
qed

lemma play_inv_playTTS:
  assumes "play_inv w" shows "play_inv (playTTS tx cb v w)"
proof -
  let ?c = "next_call w"
  obtain st w1 where g: "getAudioContext (w\<lparr>next_call := Suc ?c\<rparr>) = (st, w1)"
    by (cases "getAudioContext (w\<lparr>next_call := Suc ?c\<rparr>)")
  note f = getAudioContext_fields[OF g]
  have i0: "play_inv (w\<lparr>next_call := Suc ?c\<rparr>)"
    using assms unfolding play_inv_def by auto
  have i1: "play_inv w1"
    using i0 f by (elim play_inv_frame) simp_all
  have i2: "play_inv (stopAudio w1)" using i1 by (rule play_inv_stopAudio)
  have fresh: "plays w ?c = None" "sources w ?c = None" "count_list (trace w) (OnEnded ?c) = 0"
    using assms unfolding play_inv_def by auto
  have fresh2: "plays (stopAudio w1) ?c = None" "sources (stopAudio w1) ?c = None"
    "count_list (trace (stopAudio w1)) (OnEnded ?c) = 0" "?c < next_call (stopAudio w1)"
    using fresh f by (simp_all add: sources_stopAudio)
  have susp: "\<And>t. play_inv ((stopAudio w1)\<lparr>plays := (plays (stopAudio w1))(?c \<mapsto> t)\<rparr>)"
    using i2 fresh2 by (intro play_inv_suspend)
  have res: "\<And>t. play_inv (play_resolve ?c t (stopAudio w1))"
    using i2 fresh2 by (intro play_inv_play_resolve)
  show ?thesis using g susp res
    by (simp add: playTTS_def Let_def)
qed

lemma play_inv_source_onended:
  assumes "play_inv w" and "sources w c = Some src" and "\<not> s_ended src"
  shows "play_inv (source_onended c src w)"
  using assms unfolding play_inv_def
  by (auto simp: source_onended_def emit_def count_list_snoc Let_def)

lemma play_inv_remove:
  assumes "play_inv w" and "plays w c = Some t"
  shows "play_inv (w\<lparr>plays := (plays w)(c := None)\<rparr>)"
    and "sources w c = None" and "count_list (trace w) (OnEnded c) = 0" and "c < next_call w"
proof -
  show "play_inv (w\<lparr>plays := (plays w)(c := None)\<rparr>)"
    using assms unfolding play_inv_def by auto
  show "sources w c = None" "count_list (trace w) (OnEnded c) = 0"
    using assms unfolding play_inv_def by auto
  show "c < next_call w"
    using assms unfolding play_inv_def by (metis not_le option.distinct(1))
qed

lemma play_inv_step:
  assumes "play_inv w" and "step w e = Some w'"
  shows "play_inv w'"
proof (cases e)
  case (CallPrefetch tx v)
  then have "w' = snd (prefetchTTS tx v w)" using assms by (simp add: step_def)
  then show ?thesis using assms(1) by (auto elim: play_inv_frame)
next
  case CallStop
  then show ?thesis using assms by (auto simp: step_def play_inv_stopAudio)
next
  case (CallPlay tx cb v)
  then show ?thesis using assms by (auto simp: step_def play_inv_playTTS)
next
  case (ResumeDone c)
  then obtain t where t: "plays w c = Some t" and
    w': "w' = play_resolve c t (w\<lparr>plays := (plays w)(c := None), audioContext := Some Running\<rparr>)"
    using assms by (auto simp: step_def split: option.splits play_pc.splits)
  note r = play_inv_remove[OF assms(1) t]
  have "play_inv (w\<lparr>plays := (plays w)(c := None), audioContext := Some Running\<rparr>)"
    using r(1) by (elim play_inv_frame) simp_all
  then show ?thesis unfolding w' using r by (intro play_inv_play_resolve) simp_all
next
  case (FetchDone p outcome)
  then obtain f where "w' = fetch_complete p f outcome w"
    using assms by (auto simp: step_def split: option.splits)
  then show ?thesis using assms(1) by (auto elim: play_inv_frame)
next
  case (AudioReady c)
  then obtain t where t: "plays w c = Some t" and
    w': "w' = play_output c t (audioCache w (p_text t)) (w\<lparr>plays := (plays w)(c := None)\<rparr>)"
    using assms by (auto simp: step_def split: option.splits play_pc.splits if_splits)
  note r = play_inv_remove[OF assms(1) t]
  show ?thesis unfolding w' using r by (intro play_inv_play_output) simp_all
next
  case (SourceEnded c)
  then show ?thesis using assms
    by (auto simp: step_def play_inv_source_onended split: option.splits if_splits)
next
  case (ContextState st)
  then have "w' = w\<lparr>audioContext := Some st\<rparr>"
    using assms by (auto simp: step_def split: option.splits)
  then show ?thesis using assms(1) by (auto elim: play_inv_frame)
qed

lemma reachable_play_inv: "reachable w \<Longrightarrow> play_inv w"
  by (induction rule: reachable.induct) (auto intro: play_inv_init play_inv_step)

lemma seq_inv_init: "seq_inv (init key policy)"
  by (simp add: seq_inv_def init_def audible_def)

lemma seq_inv_frame:
  assumes "seq_inv w"
    and "plays w' = plays w" and "sources w' = sources w" and "currentSource w' = currentSource w"
  shows "seq_inv w'"
  using assms unfolding seq_inv_def audible_def by simp

lemma audible_stopAudio:
  "audible (stopAudio w) h \<longleftrightarrow> audible w h \<and> currentSource w \<noteq> Some h"
  by (auto simp: audible_def sources_stopAudio split: option.splits)

lemma silent_idle_seq_inv:
  assumes "\<forall>h. \<not> audible w h" and "\<forall>d. plays w d = None"
  shows "seq_inv w"
  using assms unfolding seq_inv_def by simp

lemma seq_inv_stopAudio:
  assumes "seq_inv w"
  shows "seq_inv (stopAudio w)" and "\<forall>h. \<not> audible (stopAudio w) h"
proof -
  show s: "\<forall>h. \<not> audible (stopAudio w) h"
    using assms unfolding seq_inv_def by (auto simp: audible_stopAudio)
  show "seq_inv (stopAudio w)"
    using assms s unfolding seq_inv_def by simp
qed

lemma audible_play_output:
  "audible (play_output c t b w) h \<Longrightarrow> audible w h \<or> (h = c \<and> currentSource (play_output c t b w) = Some c)"
  by (auto simp: play_output_def audible_def emit_def Let_def split: option.splits sum.splits if_splits)

lemma seq_inv_play_output:
  assumes "\<forall>h. \<not> audible w h" and "\<forall>d. plays w d = None"
  shows "seq_inv (play_output c t b w)"
  using assms audible_play_output[of c t b w] unfolding seq_inv_def by auto

lemma seq_inv_suspend:
  assumes "\<forall>h. \<not> audible w h" and "\<forall>d. plays w d = None"
  shows "seq_inv (w\<lparr>plays := (plays w)(c \<mapsto> t)\<rparr>)"
  using assms unfolding seq_inv_def audible_def by auto

lemma audible_prefetchTTS [simp]: "audible (snd (prefetchTTS tx v w)) h = audible w h"
  by (simp add: audible_def)

lemma seq_inv_play_resolve:
  assumes "\<forall>h. \<not> audible w h" and "\<forall>d. plays w d = None"
  shows "seq_inv (play_resolve c t w)"
proof (cases "audioCache w (p_text t)")
  case (Some bytes)
  then show ?thesis using assms by (simp add: play_resolve_def seq_inv_play_output)
next
  case None
  show ?thesis
  proof (cases "pendingRequests w (p_text t)")
    case (Some p)
    then show ?thesis using None assms by (simp add: play_resolve_def seq_inv_suspend)
  next
    case N2: None
    obtain a w1 where pf: "prefetchTTS (p_text t) (p_voice t) w = (a, w1)"
      by (cases "prefetchTTS (p_text t) (p_voice t) w")
    then have w1: "w1 = snd (prefetchTTS (p_text t) (p_voice t) w)" by simp
    have "seq_inv (w1\<lparr>plays := (plays w1)(c \<mapsto> t\<lparr>p_pc := AwaitAudio a\<rparr>)\<rparr>)"
      using assms unfolding w1 by (intro seq_inv_suspend) simp_all
    then show ?thesis using None N2 pf by (simp add: play_resolve_def)
  qed
qed

lemma seq_inv_playTTS:
  assumes "seq_inv w" and "plays w = Map.empty"
  shows "seq_inv (playTTS tx cb v w)"
proof -
  let ?c = "next_call w"
  obtain st w1 where g: "getAudioContext (w\<lparr>next_call := Suc ?c\<rparr>) = (st, w1)"
    by (cases "getAudioContext (w\<lparr>next_call := Suc ?c\<rparr>)")
  note f = getAudioContext_fields[OF g]
  have "seq_inv w1" using assms(1) f by (elim seq_inv_frame) simp_all
  then have silent: "\<forall>h. \<not> audible (stopAudio w1) h" by (rule seq_inv_stopAudio)
  have idle: "\<forall>d. plays (stopAudio w1) d = None" using assms(2) f by simp
  have susp: "\<And>t. seq_inv ((stopAudio w1)\<lparr>plays := (plays (stopAudio w1))(?c \<mapsto> t)\<rparr>)"
    using silent idle by (intro seq_inv_suspend)
  have res: "\<And>t. seq_inv (play_resolve ?c t (stopAudio w1))"
    using silent idle by (intro seq_inv_play_resolve)
  show ?thesis using g susp res by (simp add: playTTS_def Let_def)
qed

lemma audible_source_onended:
  "audible (source_onended c src w) h \<longleftrightarrow> h \<noteq> c \<and> audible w h"
  by (simp add: source_onended_def audible_def emit_def Let_def)

lemma currentSource_source_onended:
  "currentSource (source_onended c src w) = (if currentSource w = Some c then None else currentSource w)"
  by (simp add: source_onended_def emit_def Let_def)

lemma seq_inv_source_onended:
  assumes "seq_inv w"
  shows "seq_inv (source_onended c src w)"
proof -
  have 1: "\<forall>h. audible w h \<longrightarrow> currentSource w = Some h"
    and 2: "\<forall>c t. plays w c = Some t \<longrightarrow> (\<forall>h. \<not> audible w h) \<and> (\<forall>d. plays w d \<noteq> None \<longrightarrow> d = c)"
    using assms unfolding seq_inv_def by blast+
  have "\<forall>h. audible (source_onended c src w) h \<longrightarrow> currentSource (source_onended c src w) = Some h"
    using 1 by (auto simp: audible_source_onended currentSource_source_onended)
  moreover have "\<forall>c' t. plays (source_onended c src w) c' = Some t \<longrightarrow>
        (\<forall>h. \<not> audible (source_onended c src w) h) \<and>
        (\<forall>d. plays (source_onended c src w) d \<noteq> None \<longrightarrow> d = c')"
    using 2 by (simp add: audible_source_onended)
  ultimately show ?thesis unfolding seq_inv_def by blast
qed

lemma seq_inv_remove:
  assumes "seq_inv w" and "plays w c = Some t"
  shows "\<forall>h. \<not> audible (w\<lparr>plays := (plays w)(c := None)\<rparr>) h"
    and "\<forall>d. plays (w\<lparr>plays := (plays w)(c := None)\<rparr>) d = None"
proof -
  have 2: "(\<forall>h. \<not> audible w h) \<and> (\<forall>d. plays w d \<noteq> None \<longrightarrow> d = c)"
    using assms unfolding seq_inv_def by blast
  show "\<forall>h. \<not> audible (w\<lparr>plays := (plays w)(c := None)\<rparr>) h"
    using 2 by (simp add: audible_def)
  show "\<forall>d. plays (w\<lparr>plays := (plays w)(c := None)\<rparr>) d = None"
    using 2 by auto
qed

lemma seq_inv_step:
  assumes "seq_inv w" and "sequential w e" and "step w e = Some w'"
  shows "seq_inv w'"
proof (cases e)
  case (CallPrefetch tx v)
  then have "w' = snd (prefetchTTS tx v w)" using assms by (simp add: step_def)
  then show ?thesis using assms(1) by (auto elim: seq_inv_frame)
next
  case CallStop
  then show ?thesis using assms by (auto simp: step_def seq_inv_stopAudio)
next
  case (CallPlay tx cb v)
  then show ?thesis using assms by (auto simp: step_def sequential_def seq_inv_playTTS)
next
  case (ResumeDone c)
  then obtain t where t: "plays w c = Some t" and
    w': "w' = play_resolve c t (w\<lparr>plays := (plays w)(c := None), audioContext := Some Running\<rparr>)"
    using assms by (auto simp: step_def split: option.splits play_pc.splits)
  note r = seq_inv_remove[OF assms(1) t]
  show ?thesis unfolding w' using r by (intro seq_inv_play_resolve) (simp_all add: audible_def)
next
  case (FetchDone p outcome)
  then obtain f where "w' = fetch_complete p f outcome w"
    using assms by (auto simp: step_def split: option.splits)
  then show ?thesis using assms(1) by (auto elim: seq_inv_frame)
next
  case (AudioReady c)
  then obtain t where t: "plays w c = Some t" and
    w': "w' = play_output c t (audioCache w (p_text t)) (w\<lparr>plays := (plays w)(c := None)\<rparr>)"
    using assms by (auto simp: step_def split: option.splits play_pc.splits if_splits)
  note r = seq_inv_remove[OF assms(1) t]
  show ?thesis unfolding w' using r by (intro seq_inv_play_output)
next
  case (SourceEnded c)
  then show ?thesis using assms
    by (auto simp: step_def seq_inv_source_onended split: option.splits if_splits)
next
  case (ContextState st)
  then have "w' = w\<lparr>audioContext := Some st\<rparr>"
    using assms by (auto simp: step_def split: option.splits)
  then show ?thesis using assms(1) by (auto elim: seq_inv_frame)
qed

lemma seq_reachable_seq_inv: "seq_reachable w \<Longrightarrow> seq_inv w"
  by (induction rule: seq_reachable.induct) (auto intro: seq_inv_init seq_inv_step)

lemma seq_reachable_reachable: "seq_reachable w \<Longrightarrow> reachable w"
  by (induction rule: seq_reachable.induct) (auto intro: reachable.intros)

section \<open>The claims\<close>

subsection \<open>C8: \<^verbatim>\<open>stopAudio\<close> is idempotent and total\<close>

text \<open>
  Claim C8.  \<^verbatim>\<open>stopAudio\<close> always leaves no tracked node and running it twice is
  the same as running it once.  When no node is tracked it changes nothing.
  When node \<open>h\<close> is tracked, \<open>h\<close> is not audible afterwards, and if \<^verbatim>\<open>stop()\<close>
  throws because \<open>h\<close> was already halted or had already finished, the exception
  is swallowed: the only effect is that the handle is discarded.
\<close>

theorem stopAudio_idempotent_total:
  "currentSource (stopAudio w) = None \<and>
   stopAudio (stopAudio w) = stopAudio w \<and>
   (currentSource w = None \<longrightarrow> stopAudio w = w) \<and>
   (\<forall>h. currentSource w = Some h \<longrightarrow>
      \<not> audible (stopAudio w) h \<and>
      (\<forall>e. source_stop h w = Inl e \<longrightarrow> stopAudio w = w\<lparr>currentSource := None\<rparr>))"
proof -
  have 1: "currentSource (stopAudio w) = None" by simp
  have 2: "stopAudio (stopAudio w) = stopAudio w"
    using 1 by (simp add: stopAudio_def[of "stopAudio w"])
  have 3: "currentSource w = None \<longrightarrow> stopAudio w = w"
    by (simp add: stopAudio_def)
  have 4: "\<forall>h. currentSource w = Some h \<longrightarrow> \<not> audible (stopAudio w) h"
    by (simp add: audible_stopAudio)
  have 5: "\<forall>h e. currentSource w = Some h \<longrightarrow> source_stop h w = Inl e \<longrightarrow>
             stopAudio w = w\<lparr>currentSource := None\<rparr>"
    by (simp add: stopAudio_def)
  show ?thesis using 1 2 3 4 5 by blast
qed

text \<open>The claim at the initial state, at a state with a playing node and at a
  state whose tracked node has already finished.\<close>

theorem stopAudio_idempotent_total_witness:
  "stopAudio (init True Running) = init True Running \<and>
   \<not> audible (stopAudio ((init True Running)
        \<lparr>currentSource := Some 0,
         sources := [0 \<mapsto> \<lparr>s_buffer = \<lparr>numberOfChannels = 1, sampleRate = 24000, channelData = [0]\<rparr>,
                          s_onEnded = True, s_stopped = False, s_ended = False\<rparr>]\<rparr>)) 0 \<and>
   stopAudio ((init True Running)
        \<lparr>currentSource := Some 0,
         sources := [0 \<mapsto> \<lparr>s_buffer = \<lparr>numberOfChannels = 1, sampleRate = 24000, channelData = [0]\<rparr>,
                          s_onEnded = True, s_stopped = False, s_ended = True\<rparr>]\<rparr>)
     = (init True Running)
        \<lparr>currentSource := None,
         sources := [0 \<mapsto> \<lparr>s_buffer = \<lparr>numberOfChannels = 1, sampleRate = 24000, channelData = [0]\<rparr>,
                          s_onEnded = True, s_stopped = False, s_ended = True\<rparr>]\<rparr>"
proof -
  let ?b = "\<lparr>numberOfChannels = 1, sampleRate = 24000, channelData = [0::real]\<rparr>"
  let ?w1 = "(init True Running)
        \<lparr>currentSource := Some 0,
         sources := [0 \<mapsto> \<lparr>s_buffer = ?b, s_onEnded = True, s_stopped = False, s_ended = False\<rparr>]\<rparr>"
  let ?w2 = "(init True Running)
        \<lparr>currentSource := Some 0,
         sources := [0 \<mapsto> \<lparr>s_buffer = ?b, s_onEnded = True, s_stopped = False, s_ended = True\<rparr>]\<rparr>"
  have a: "currentSource (init True Running) = None" by (simp add: init_def)
  have b: "currentSource ?w1 = Some 0" by simp
  have c: "currentSource ?w2 = Some 0" by simp
  have d: "source_stop 0 ?w2 = Inl InvalidStateError" by (simp add: source_stop_def)
  have 1: "stopAudio (init True Running) = init True Running"
    using stopAudio_idempotent_total[of "init True Running"] a by blast
  have 2: "\<not> audible (stopAudio ?w1) 0"
    using stopAudio_idempotent_total[of ?w1] b by blast
  have 3: "stopAudio ?w2 = ?w2\<lparr>currentSource := None\<rparr>"
    using stopAudio_idempotent_total[of ?w2] c d by blast
  have 4: "?w2\<lparr>currentSource := None\<rparr> = (init True Running)
        \<lparr>currentSource := None,
         sources := [0 \<mapsto> \<lparr>s_buffer = ?b, s_onEnded = True, s_stopped = False, s_ended = True\<rparr>]\<rparr>"
    by simp
  show ?thesis using 1 2 3 4 by simp
qed

subsection \<open>Facts about the decoder used by C7 and C3\<close>

lemma sint_int16_of_bytes: "sint (int16_of_bytes lo hi) = le_signed16 lo hi"
  by (simp add: sint_int16 uint_int16_of_bytes le_signed16_def Let_def)

lemma normalize_sample_bounds: "- 1 \<le> normalize_sample x \<and> normalize_sample x \<le> 1"
proof -
  have "- 32768 \<le> sint x" "sint x < 32768"
    using sint_ge[of x] sint_lt[of x] by simp_all
  then have "- 32768 \<le> real_of_int (sint x)" "real_of_int (sint x) \<le> 32768"
    by linarith+
  then show ?thesis by (simp add: normalize_sample_def)
qed

lemma Int16Array_Nil [simp]: "Int16Array data n = [] \<longleftrightarrow> n = 0"
  by (simp add: Int16Array_def)

lemma pcmToAudioBuffer_Inr:
  assumes "0 < length data div 2" and "0 < rate"
  shows "pcmToAudioBuffer data rate =
           Inr \<lparr>numberOfChannels = 1, sampleRate = rate,
                channelData = map normalize_sample (Int16Array data (length data div 2))\<rparr>"
proof -
  let ?n = "length data div 2"
  let ?d = "Int16Array data ?n"
  have len: "length ?d = ?n" by (simp add: Int16Array_def)
  have "normalize_loop 0 ?n ?d (replicate ?n 0) = map normalize_sample ?d"
    by (rule nth_equalityI) (simp_all add: length_normalize_loop nth_normalize_loop len)
  then show ?thesis using assms len
    by (simp add: pcmToAudioBuffer_def createBuffer_def Let_def)
qed

lemma pcmToAudioBuffer_Inl:
  assumes "length data div 2 = 0 \<or> rate = 0"
  shows "pcmToAudioBuffer data rate = Inl NotSupportedError"
  using assms by (auto simp: pcmToAudioBuffer_def createBuffer_def Let_def Int16Array_def)

lemma Int16Array_butlast:
  assumes "length data = 2 * N + 1"
  shows "Int16Array (butlast data) N = Int16Array data N"
  using assms by (auto simp: Int16Array_def nth_butlast)

lemma decodeBase64_loop_map:
  "decodeBase64_loop 0 (length s) s (replicate (length s) 0) = map of_nat s"
proof -
  have nth: "\<And>i n bs j. j < length bs \<Longrightarrow> decodeBase64_loop i n s bs ! j =
          (if i \<le> j \<and> j < n then of_nat (s ! j) else bs ! j)"
  proof -
    fix i n bs j
    show "j < length bs \<Longrightarrow> decodeBase64_loop i n s bs ! j =
          (if i \<le> j \<and> j < n then of_nat (s ! j) else bs ! j)"
    proof (induction i n s bs rule: decodeBase64_loop.induct)
      case (1 i n s bs)
      show ?case
      proof (cases "i < n")
        case True
        have "decodeBase64_loop i n s bs ! j = decodeBase64_loop (Suc i) n s (bs[i := of_nat (s ! i)]) ! j"
          using True by (subst decodeBase64_loop.simps) simp
        also have "\<dots> = (if Suc i \<le> j \<and> j < n then of_nat (s ! j) else (bs[i := of_nat (s ! i)]) ! j)"
          using 1 True by simp
        also have "\<dots> = (if i \<le> j \<and> j < n then of_nat (s ! j) else bs ! j)"
          using True "1.prems" by (cases "j = i") (auto simp: nth_list_update)
        finally show ?thesis .
      next
        case False
        then show ?thesis by (subst decodeBase64_loop.simps) auto
      qed
    qed
  qed
  show ?thesis
    by (rule nth_equalityI) (simp_all add: length_decodeBase64_loop nth)
qed

lemma decodeBase64_Inr:
  "decodeBase64 b64 = Inr bytes \<longleftrightarrow> (\<exists>codes. atob b64 = Inr codes \<and> bytes = map of_nat codes)"
  by (auto simp: decodeBase64_def Let_def decodeBase64_loop_map split: sum.splits)

lemma atob_example: "atob ''AAD/fw=='' = Inr [0, 0, 255, 127]"
  by (simp add: atob_def strip_padding_def is_ascii_whitespace_def b64_value_def Let_def)

lemma decodeBase64_example: "decodeBase64 ''AAD/fw=='' = Inr [0, 0, 255, 127]"
  by (simp add: decodeBase64_Inr atob_example)

lemma decodeBase64_Nil: "decodeBase64 [] = Inr []"
  by (simp add: decodeBase64_Inr atob_def strip_padding_def)

lemma fetch_complete_stores:
  assumes "decodeBase64 payload = Inr bytes" and "payload \<noteq> []"
  shows "fetch_complete p f (Responds (Some payload)) w =
           emit (DecodeBase64 (f_text f))
             (w\<lparr>fetches := (fetches w)(p := None),
                audioCache := (audioCache w)(f_text f \<mapsto> bytes),
                pendingRequests := (pendingRequests w)(f_text f := None),
                settled := insert p (settled w)\<rparr>)"
  using assms by (simp add: fetch_complete_def fetch_body_def fetch_finally_def emit_def)

lemma atob_odd_example: "atob ''AID/'' = Inr [0, 128, 255]"
  by (simp add: atob_def strip_padding_def is_ascii_whitespace_def b64_value_def Let_def)

lemma decodeBase64_odd_example: "decodeBase64 ''AID/'' = Inr [0, 128, 255]"
  by (simp add: decodeBase64_Inr atob_odd_example)

lemma prefetch_fresh:
  assumes "audioCache w tx = None" and "pendingRequests w tx = None" and "api_key w"
  shows "prefetchTTS tx v w =
           (Promise (next_promise w),
            w\<lparr>next_promise := Suc (next_promise w),
              fetches := (fetches w)(next_promise w \<mapsto> \<lparr>f_text = tx, f_voice = v\<rparr>),
              trace := trace w @ [Synthesize tx v],
              pendingRequests := (pendingRequests w)(tx \<mapsto> next_promise w)\<rparr>)"
  using assms by (simp add: prefetchTTS_def getAI_def emit_def Let_def)

lemma decodeBase64_one_byte: "decodeBase64 ''AA=='' = Inr [0]"
  by (simp add: decodeBase64_Inr atob_def strip_padding_def is_ascii_whitespace_def
        b64_value_def Let_def)

lemma prefetch_hi_init:
  "prefetchTTS ''hi'' Kore (init True Running) =
       (Promise 0, (init True Running)\<lparr>next_promise := Suc 0,
              fetches := [0 \<mapsto> \<lparr>f_text = ''hi'', f_voice = Kore\<rparr>],
              trace := [Synthesize ''hi'' Kore],
              pendingRequests := [''hi'' \<mapsto> 0]\<rparr>)"
  by (subst prefetch_fresh) (simp_all add: init_def)

subsection \<open>C3: a payload of odd length\<close>

text \<open>
  Claim C3 says that a payload that decodes to an odd number of bytes is
  rejected with a decode error and nothing is stored.  The code does not check
  the length anywhere: the payload \<^verbatim>\<open>AID/\<close> decodes to three bytes, the three bytes
  are stored in the cache, and \<^verbatim>\<open>pcmToAudioBuffer\<close> returns a buffer of one sample.
\<close>

theorem odd_payload_counterexample:
  "decodeBase64 ''AID/'' = Inr [0, 128, 255] \<and>
   map_option (cached ''hi'')
     (run (init True Running) [CallPrefetch ''hi'' Kore, FetchDone 0 (Responds (Some ''AID/''))])
     = Some (Some [0, 128, 255]) \<and>
   pcmToAudioBuffer [0, 128, 255] 24000 =
     Inr \<lparr>numberOfChannels = 1, sampleRate = 24000, channelData = [- 1]\<rparr>"
proof -
  have 1: "decodeBase64 ''AID/'' = Inr [0, 128, 255]" by (rule decodeBase64_odd_example)
  have pf: "prefetchTTS ''hi'' Kore (init True Running) =
       (Promise 0, (init True Running)\<lparr>next_promise := Suc 0,
              fetches := [0 \<mapsto> \<lparr>f_text = ''hi'', f_voice = Kore\<rparr>],
              trace := [Synthesize ''hi'' Kore],
              pendingRequests := [''hi'' \<mapsto> 0]\<rparr>)"
    by (subst prefetch_fresh) (simp_all add: init_def)
  have 2: "map_option (cached ''hi'')
     (run (init True Running) [CallPrefetch ''hi'' Kore, FetchDone 0 (Responds (Some ''AID/''))])
     = Some (Some [0, 128, 255])"
    by (simp add: step_def pf fetch_complete_stores[OF 1] cached_def emit_def)
  have 3: "pcmToAudioBuffer [0, 128, 255] 24000 =
     Inr \<lparr>numberOfChannels = 1, sampleRate = 24000, channelData = [- 1]\<rparr>"
    by (subst pcmToAudioBuffer_Inr)
       (simp_all add: Int16Array_def int16_of_bytes_def normalize_sample_def)
  show ?thesis using 1 2 3 by blast
qed

text \<open>
  Claim C3 as amended.  For a payload that decodes to \<open>2N+1\<close> bytes, completion
  of the request stores the bytes under the text and logs no error;
  \<^verbatim>\<open>pcmToAudioBuffer\<close> gives the same result as on the bytes without the last one:
  a buffer of \<open>N\<close> samples when \<open>N > 0\<close>, and the \<^verbatim>\<open>NotSupportedError\<close> of
  \<^verbatim>\<open>createBuffer\<close> when \<open>N = 0\<close>.
\<close>

theorem odd_payload_stored_and_truncated:
  assumes "decodeBase64 payload = Inr bytes" and "length bytes = 2 * N + 1"
    and "fetches w p = Some f"
  shows "(\<exists>w'. step w (FetchDone p (Responds (Some payload))) = Some w' \<and>
            cached (f_text f) w' = Some bytes \<and>
            trace w' = trace w @ [DecodeBase64 (f_text f)]) \<and>
         pcmToAudioBuffer bytes 24000 = pcmToAudioBuffer (butlast bytes) 24000 \<and>
         (0 < N \<longrightarrow> (\<exists>buf. pcmToAudioBuffer bytes 24000 = Inr buf \<and>
                             length (channelData buf) = N)) \<and>
         (N = 0 \<longrightarrow> pcmToAudioBuffer bytes 24000 = Inl NotSupportedError)"
proof -
  have ne: "payload \<noteq> []"
    using assms(1,2) by (auto simp: decodeBase64_Nil)
  have 1: "\<exists>w'. step w (FetchDone p (Responds (Some payload))) = Some w' \<and>
            cached (f_text f) w' = Some bytes \<and>
            trace w' = trace w @ [DecodeBase64 (f_text f)]"
    using assms(3) fetch_complete_stores[OF assms(1) ne]
    by (simp add: step_def cached_def emit_def)
  have n: "length bytes div 2 = N" "length (butlast bytes) div 2 = N"
    using assms(2) by simp_all
  have 2: "pcmToAudioBuffer bytes 24000 = pcmToAudioBuffer (butlast bytes) 24000"
    using Int16Array_butlast[OF assms(2)] n
    by (simp add: pcmToAudioBuffer_def Let_def)
  have 3: "0 < N \<longrightarrow> (\<exists>buf. pcmToAudioBuffer bytes 24000 = Inr buf \<and>
                             length (channelData buf) = N)"
    using pcmToAudioBuffer_Inr[of bytes 24000] n by (simp add: Int16Array_def)
  have 4: "N = 0 \<longrightarrow> pcmToAudioBuffer bytes 24000 = Inl NotSupportedError"
    using pcmToAudioBuffer_Inl[of bytes 24000] n by simp
  show ?thesis using 1 2 3 4 by blast
qed

text \<open>The amended claim at the payloads \<^verbatim>\<open>AID/\<close> (three bytes) and \<^verbatim>\<open>AA==\<close> (one byte).\<close>

theorem odd_payload_stored_and_truncated_witness:
  "decodeBase64 ''AID/'' = Inr [0, 128, 255] \<and>
   length [0, 128, 255 :: byte] = 2 * 1 + 1 \<and>
   fetches (snd (prefetchTTS ''hi'' Kore (init True Running))) 0
     = Some \<lparr>f_text = ''hi'', f_voice = Kore\<rparr> \<and>
   (\<exists>w'. step (snd (prefetchTTS ''hi'' Kore (init True Running)))
                (FetchDone 0 (Responds (Some ''AID/''))) = Some w' \<and>
         cached ''hi'' w' = Some [0, 128, 255]) \<and>
   pcmToAudioBuffer [0, 128, 255] 24000 = pcmToAudioBuffer [0, 128] 24000 \<and>
   (\<exists>buf. pcmToAudioBuffer [0, 128, 255] 24000 = Inr buf \<and> length (channelData buf) = 1) \<and>
   decodeBase64 ''AA=='' = Inr [0] \<and>
   pcmToAudioBuffer [0] 24000 = Inl NotSupportedError"
proof -
  let ?w = "snd (prefetchTTS ''hi'' Kore (init True Running))"
  let ?f = "\<lparr>f_text = ''hi'', f_voice = Kore\<rparr>"
  have d: "decodeBase64 ''AID/'' = Inr [0, 128, 255]" by (rule decodeBase64_odd_example)
  have l: "length [0, 128, 255 :: byte] = 2 * 1 + 1" by simp
  have f: "fetches ?w 0 = Some ?f" by (simp add: prefetch_hi_init)
  have d0: "decodeBase64 ''AA=='' = Inr [0]" by (rule decodeBase64_one_byte)
  have l0: "length [0 :: byte] = 2 * 0 + 1" by simp
  note a = odd_payload_stored_and_truncated[OF d l f]
  note b = odd_payload_stored_and_truncated[OF d0 l0 f]
  have 1: "\<exists>w'. step ?w (FetchDone 0 (Responds (Some ''AID/''))) = Some w' \<and>
         cached ''hi'' w' = Some [0, 128, 255]"
    using a by auto
  have 2: "pcmToAudioBuffer [0, 128, 255] 24000 = pcmToAudioBuffer [0, 128] 24000"
    using a by simp
  have 3: "\<exists>buf. pcmToAudioBuffer [0, 128, 255] 24000 = Inr buf \<and> length (channelData buf) = 1"
    using a[THEN conjunct2, THEN conjunct2, THEN conjunct1] by simp
  have 4: "pcmToAudioBuffer [0] 24000 = Inl NotSupportedError"
    using b[THEN conjunct2, THEN conjunct2, THEN conjunct2] by simp
  show ?thesis using d l f d0 1 2 3 4 by blast
qed

subsection \<open>Facts about \<^verbatim>\<open>prefetchTTS\<close> and \<^verbatim>\<open>playTTS\<close> used by C9 and C10\<close>

lemma fetch_complete_no_audio:
  assumes "base64Audio = None \<or> base64Audio = Some []"
  shows "fetch_complete p f (Responds base64Audio) w =
           w\<lparr>fetches := (fetches w)(p := None),
             pendingRequests := (pendingRequests w)(f_text f := None),
             settled := insert p (settled w)\<rparr>"
  using assms by (auto simp: fetch_complete_def fetch_body_def fetch_finally_def)

lemma fetch_complete_rejects:
  "fetch_complete p f Rejects w =
           w\<lparr>fetches := (fetches w)(p := None),
             trace := trace w @ [ConsoleError SynthesisError],
             pendingRequests := (pendingRequests w)(f_text f := None),
             settled := insert p (settled w)\<rparr>"
  by (simp add: fetch_complete_def fetch_body_def fetch_finally_def emit_def)

lemma reachable_prefetch_hi: "reachable (snd (prefetchTTS ''hi'' Kore (init True Running)))"
  by (rule reachable_step[OF reachable_init, of _ _ "CallPrefetch ''hi'' Kore"])
     (simp add: step_def)

lemma synth_calls_snoc:
  "synth_calls tx (tr @ [e]) = synth_calls tx tr + (if is_synth tx e then 1 else 0)"
  by (simp add: synth_calls_def)



lemma play_output_synth_calls [simp]:
  "synth_calls tx (trace (play_output c t b w)) = synth_calls tx (trace w)"
  by (simp add: play_output_def emit_def Let_def synth_calls_def is_synth_def
        split: option.splits sum.splits)

lemma play_output_sources_plays:
  "sources (play_output c t b (w\<lparr>plays := x\<rparr>)) = sources (play_output c t b w)"
  "trace (play_output c t b (w\<lparr>plays := x\<rparr>)) = trace (play_output c t b w)"
  "currentSource (play_output c t b (w\<lparr>plays := x\<rparr>)) = currentSource (play_output c t b w)"
  by (simp_all add: play_output_def emit_def Let_def split: option.splits sum.splits)


lemma playTTS_unfold:
  assumes "getAudioContext (w\<lparr>next_call := Suc (next_call w)\<rparr>) = (st, w1)"
  shows "playTTS tx cb v w =
           (if st = Suspended
            then (stopAudio w1)\<lparr>plays := (plays (stopAudio w1))(next_call w \<mapsto>
                   \<lparr>p_text = tx, p_onEnded = cb, p_voice = v, p_pc = AwaitResume\<rparr>)\<rparr>
            else play_resolve (next_call w)
                   \<lparr>p_text = tx, p_onEnded = cb, p_voice = v, p_pc = AwaitResume\<rparr> (stopAudio w1))"
  using assms by (simp add: playTTS_def Let_def)


subsection \<open>C10: a response without audio data\<close>

text \<open>
  Claim C10.  When the request for a text completes with a response whose
  \<^verbatim>\<open>inlineData.data\<close> is missing (or is the empty string, which \<^verbatim>\<open>if (base64Audio)\<close>
  treats alike), the cache is unchanged and has no entry for the text, the
  pending entry is removed, the promise is settled and nothing is logged.  The
  resulting state is the one reached when the request is rejected, except for
  the error that the rejection logs.
\<close>

theorem empty_response_is_unavailable:
  assumes "reachable w" and "fetches w p = Some f"
    and "base64Audio = None \<or> base64Audio = Some []"
  shows "\<exists>w'. step w (FetchDone p (Responds base64Audio)) = Some w' \<and>
            audioCache w' = audioCache w \<and> cached (f_text f) w' = None \<and>
            pendingRequests w' = (pendingRequests w)(f_text f := None) \<and>
            fetches w' = (fetches w)(p := None) \<and>
            is_settled w' (Promise p) \<and> trace w' = trace w \<and>
            step w (FetchDone p Rejects) = Some (emit (ConsoleError SynthesisError) w')"
proof -
  have "fetch_inv w" using assms(1) by (rule reachable_fetch_inv)
  then have c: "audioCache w (f_text f) = None"
    using assms(2) unfolding fetch_inv_def by blast
  show ?thesis
    using assms(2) c fetch_complete_no_audio[OF assms(3)]
    by (simp add: step_def cached_def is_settled_def fetch_complete_rejects emit_def)
qed

text \<open>The claim for the request started by \<^verbatim>\<open>prefetchTTS("hi")\<close> in the initial state.\<close>

theorem empty_response_is_unavailable_witness:
  "reachable (snd (prefetchTTS ''hi'' Kore (init True Running))) \<and>
   fetches (snd (prefetchTTS ''hi'' Kore (init True Running))) 0
     = Some \<lparr>f_text = ''hi'', f_voice = Kore\<rparr> \<and>
   (\<exists>w'. step (snd (prefetchTTS ''hi'' Kore (init True Running)))
                (FetchDone 0 (Responds None)) = Some w' \<and>
         cached ''hi'' w' = None \<and> pendingRequests w' ''hi'' = None \<and>
         is_settled w' (Promise 0) \<and> trace w' = [Synthesize ''hi'' Kore]) \<and>
   (\<exists>w'. step (snd (prefetchTTS ''hi'' Kore (init True Running)))
                (FetchDone 0 (Responds (Some ''''))) = Some w' \<and>
         cached ''hi'' w' = None \<and> pendingRequests w' ''hi'' = None \<and>
         is_settled w' (Promise 0) \<and> trace w' = [Synthesize ''hi'' Kore])"
proof -
  let ?w = "snd (prefetchTTS ''hi'' Kore (init True Running))"
  let ?f = "\<lparr>f_text = ''hi'', f_voice = Kore\<rparr>"
  have r: "reachable ?w" by (rule reachable_prefetch_hi)
  have f: "fetches ?w 0 = Some ?f" by (simp add: prefetch_hi_init)
  have t: "trace ?w = [Synthesize ''hi'' Kore]" "pendingRequests ?w = [''hi'' \<mapsto> 0]"
    by (simp_all add: prefetch_hi_init)
  have a: "(None :: string option) = None \<or> None = Some []" by simp
  have b: "Some '''' = None \<or> Some '''' = Some []" by simp
  from empty_response_is_unavailable[OF r f a] obtain w1 where
    1: "step ?w (FetchDone 0 (Responds None)) = Some w1" "cached (f_text ?f) w1 = None"
       "pendingRequests w1 = (pendingRequests ?w)(f_text ?f := None)"
       "is_settled w1 (Promise 0)" "trace w1 = trace ?w"
    by blast
  from empty_response_is_unavailable[OF r f b] obtain w2 where
    2: "step ?w (FetchDone 0 (Responds (Some ''''))) = Some w2" "cached (f_text ?f) w2 = None"
       "pendingRequests w2 = (pendingRequests ?w)(f_text ?f := None)"
       "is_settled w2 (Promise 0)" "trace w2 = trace ?w"
    by blast
  have 3: "\<exists>w'. step ?w (FetchDone 0 (Responds None)) = Some w' \<and>
         cached ''hi'' w' = None \<and> pendingRequests w' ''hi'' = None \<and>
         is_settled w' (Promise 0) \<and> trace w' = [Synthesize ''hi'' Kore]"
    using 1 t by (intro exI[of _ w1]) simp
  have 4: "\<exists>w'. step ?w (FetchDone 0 (Responds (Some ''''))) = Some w' \<and>
         cached ''hi'' w' = None \<and> pendingRequests w' ''hi'' = None \<and>
         is_settled w' (Promise 0) \<and> trace w' = [Synthesize ''hi'' Kore]"
    using 2 t by (intro exI[of _ w2]) simp
  show ?thesis using r f 3 4 by blast
qed

subsection \<open>Facts about repeated calls of \<^verbatim>\<open>prefetchTTS\<close>\<close>

lemma prefetch_all_pending:
  assumes "pendingRequests w tx = Some p" and "audioCache w tx = None"
  shows "prefetch_all tx vs w = (replicate (length vs) (Promise p), w)"
proof (induction vs)
  case Nil
  show ?case by simp
next
  case (Cons v vs)
  have "prefetchTTS tx v w = (Promise p, w)"
    using assms by (simp add: prefetchTTS_def)
  then show ?case using Cons by simp
qed

lemma fetch_complete_settles: "is_settled (fetch_complete p f outcome w) (Promise p)"
  by (simp add: fetch_complete_def fetch_finally_def is_settled_def)

lemma prefetch_getAI_fails:
  assumes "audioCache w tx = None" and "pendingRequests w tx = None" and "\<not> api_key w"
  shows "prefetchTTS tx v w =
           (Promise (next_promise w),
            w\<lparr>next_promise := Suc (next_promise w),
              trace := trace w @ [ConsoleError ApiKeyMissing],
              pendingRequests := (pendingRequests w)(tx \<mapsto> next_promise w),
              settled := insert (next_promise w) (settled w)\<rparr>)"
  using assms by (simp add: prefetchTTS_def getAI_def emit_def fetch_finally_def Let_def)

lemma async_failure_clears_pending:
  assumes "reachable w" and "fetches w p = Some f"
    and "outcome = Rejects \<or> (\<exists>payload e. outcome = Responds (Some payload) \<and>
            payload \<noteq> [] \<and> decodeBase64 payload = Inl e)"
  shows "\<exists>w'. step w (FetchDone p outcome) = Some w' \<and>
            audioCache w' = audioCache w \<and> cached (f_text f) w' = None \<and>
            pendingRequests w' (f_text f) = None \<and> is_settled w' (Promise p) \<and>
            (api_key w \<longrightarrow>
               synth_calls (f_text f) (trace (snd (prefetchTTS (f_text f) v w')))
                 = Suc (synth_calls (f_text f) (trace w')))"
proof -
  have "fetch_inv w" using assms(1) by (rule reachable_fetch_inv)
  then have c: "audioCache w (f_text f) = None"
    using assms(2) unfolding fetch_inv_def by blast
  let ?w' = "fetch_complete p f outcome w"
  have a: "audioCache ?w' = audioCache w" "pendingRequests ?w' (f_text f) = None"
    "api_key ?w' = api_key w"
    using assms(3)
    by (auto simp: fetch_complete_def fetch_body_def fetch_finally_def emit_def)
  have "api_key w \<longrightarrow> synth_calls (f_text f) (trace (snd (prefetchTTS (f_text f) v ?w')))
                 = Suc (synth_calls (f_text f) (trace ?w'))"
    using a c by (simp add: prefetch_fresh synth_calls_def is_synth_def)
  then show ?thesis
    using assms(2) a c by (simp add: step_def cached_def fetch_complete_settles)
qed

subsection \<open>C2: one request per text\<close>

text \<open>
  Claim C2.  In every reachable state, whatever calls of \<^verbatim>\<open>prefetchTTS\<close>,
  \<^verbatim>\<open>playTTS\<close> and \<^verbatim>\<open>stopAudio\<close> and whatever completions led to it:
  \<^item> two requests in flight are for different texts;
  \<^item> while a request for a text is in flight, any number of further calls of
    \<^verbatim>\<open>prefetchTTS\<close> for that text change nothing and all return the promise of
    that request, which is settled when the request completes, whatever its outcome;
  \<^item> for a text that is neither cached nor pending (the API key being set),
    \<open>N \<ge> 1\<close> calls in a row call the synthesizer exactly once, with the voice of
    the first call, and all return the same new promise.
\<close>

theorem prefetch_single_flight:
  assumes "reachable w"
  shows "(\<forall>p q f g. fetches w p = Some f \<and> fetches w q = Some g \<and> f_text f = f_text g
            \<longrightarrow> p = q) \<and>
         (\<forall>p f vs. fetches w p = Some f \<longrightarrow>
            prefetch_all (f_text f) vs w = (replicate (length vs) (Promise p), w) \<and>
            (\<forall>outcome. \<exists>w'. step w (FetchDone p outcome) = Some w' \<and>
                              is_settled w' (Promise p))) \<and>
         (\<forall>tx v vs. audioCache w tx = None \<and> pendingRequests w tx = None \<and> api_key w \<longrightarrow>
            fst (prefetch_all tx (v # vs) w)
              = replicate (Suc (length vs)) (Promise (next_promise w)) \<and>
            synth_calls tx (trace (snd (prefetch_all tx (v # vs) w)))
              = Suc (synth_calls tx (trace w)) \<and>
            fetches (snd (prefetch_all tx (v # vs) w))
              = (fetches w)(next_promise w \<mapsto> \<lparr>f_text = tx, f_voice = v\<rparr>))"
proof -
  have inv: "fetch_inv w" using assms by (rule reachable_fetch_inv)
  have reg: "\<And>p f. fetches w p = Some f \<Longrightarrow>
               pendingRequests w (f_text f) = Some p \<and> audioCache w (f_text f) = None"
    using inv unfolding fetch_inv_def by blast
  have 1: "\<forall>p q f g. fetches w p = Some f \<and> fetches w q = Some g \<and> f_text f = f_text g
            \<longrightarrow> p = q"
  proof (intro allI impI)
    fix p q f g
    assume a: "fetches w p = Some f \<and> fetches w q = Some g \<and> f_text f = f_text g"
    then have fp: "fetches w p = Some f" and gq: "fetches w q = Some g"
      and eq: "f_text f = f_text g" by blast+
    have "pendingRequests w (f_text f) = Some p" using reg[OF fp] by blast
    moreover have "pendingRequests w (f_text f) = Some q" using reg[OF gq] eq by simp
    ultimately show "p = q" by simp
  qed
  have 2: "\<forall>p f vs. fetches w p = Some f \<longrightarrow>
            prefetch_all (f_text f) vs w = (replicate (length vs) (Promise p), w) \<and>
            (\<forall>outcome. \<exists>w'. step w (FetchDone p outcome) = Some w' \<and>
                              is_settled w' (Promise p))"
  proof (intro allI impI conjI)
    fix p f vs
    assume a: "fetches w p = Some f"
    show "prefetch_all (f_text f) vs w = (replicate (length vs) (Promise p), w)"
      using reg[OF a] by (intro prefetch_all_pending) simp_all
    fix outcome
    show "\<exists>w'. step w (FetchDone p outcome) = Some w' \<and> is_settled w' (Promise p)"
      using a by (simp add: step_def fetch_complete_settles)
  qed
  have 3: "\<forall>tx v vs. audioCache w tx = None \<and> pendingRequests w tx = None \<and> api_key w \<longrightarrow>
            fst (prefetch_all tx (v # vs) w)
              = replicate (Suc (length vs)) (Promise (next_promise w)) \<and>
            synth_calls tx (trace (snd (prefetch_all tx (v # vs) w)))
              = Suc (synth_calls tx (trace w)) \<and>
            fetches (snd (prefetch_all tx (v # vs) w))
              = (fetches w)(next_promise w \<mapsto> \<lparr>f_text = tx, f_voice = v\<rparr>)"
  proof (intro allI impI)
    fix tx v vs
    assume a: "audioCache w tx = None \<and> pendingRequests w tx = None \<and> api_key w"
    let ?w1 = "w\<lparr>next_promise := Suc (next_promise w),
              fetches := (fetches w)(next_promise w \<mapsto> \<lparr>f_text = tx, f_voice = v\<rparr>),
              trace := trace w @ [Synthesize tx v],
              pendingRequests := (pendingRequests w)(tx \<mapsto> next_promise w)\<rparr>"
    have f: "prefetchTTS tx v w = (Promise (next_promise w), ?w1)"
      using a by (intro prefetch_fresh) simp_all
    have r: "prefetch_all tx vs ?w1 = (replicate (length vs) (Promise (next_promise w)), ?w1)"
      using a by (intro prefetch_all_pending) simp_all
    have "prefetch_all tx (v # vs) w
            = (replicate (Suc (length vs)) (Promise (next_promise w)), ?w1)"
      using f r by simp
    then show "fst (prefetch_all tx (v # vs) w)
              = replicate (Suc (length vs)) (Promise (next_promise w)) \<and>
            synth_calls tx (trace (snd (prefetch_all tx (v # vs) w)))
              = Suc (synth_calls tx (trace w)) \<and>
            fetches (snd (prefetch_all tx (v # vs) w))
              = (fetches w)(next_promise w \<mapsto> \<lparr>f_text = tx, f_voice = v\<rparr>)"
      by (simp add: synth_calls_def is_synth_def)
  qed
  show ?thesis using 1 2 3 by blast
qed

text \<open>The claim for three calls for \<^verbatim>\<open>"hi"\<close> in the initial state, and for two
  more calls while the request of a first call is in flight.\<close>

theorem prefetch_single_flight_witness:
  "reachable (init True Running) \<and>
   fst (prefetch_all ''hi'' [Kore, Puck, Charon] (init True Running))
     = [Promise 0, Promise 0, Promise 0] \<and>
   synth_calls ''hi'' (trace (snd (prefetch_all ''hi'' [Kore, Puck, Charon] (init True Running)))) = 1 \<and>
   reachable (snd (prefetchTTS ''hi'' Kore (init True Running))) \<and>
   fetches (snd (prefetchTTS ''hi'' Kore (init True Running))) 0
     = Some \<lparr>f_text = ''hi'', f_voice = Kore\<rparr> \<and>
   prefetch_all ''hi'' [Puck, Charon] (snd (prefetchTTS ''hi'' Kore (init True Running)))
     = ([Promise 0, Promise 0], snd (prefetchTTS ''hi'' Kore (init True Running))) \<and>
   (\<exists>w'. step (snd (prefetchTTS ''hi'' Kore (init True Running))) (FetchDone 0 Rejects) = Some w' \<and>
         is_settled w' (Promise 0))"
proof -
  let ?i = "init True Running"
  let ?w = "snd (prefetchTTS ''hi'' Kore ?i)"
  let ?f = "\<lparr>f_text = ''hi'', f_voice = Kore\<rparr>"
  have ri: "reachable ?i" by (rule reachable_init)
  have rw: "reachable ?w" by (rule reachable_prefetch_hi)
  have f: "fetches ?w 0 = Some ?f" by (simp add: prefetch_hi_init)
  have h: "audioCache ?i ''hi'' = None \<and> pendingRequests ?i ''hi'' = None \<and> api_key ?i"
    by (simp add: init_def)
  have n: "next_promise ?i = 0" "synth_calls ''hi'' (trace ?i) = 0"
    by (simp_all add: init_def synth_calls_def)
  note a = prefetch_single_flight[OF ri, THEN conjunct2, THEN conjunct2, rule_format, OF h,
             of Kore "[Puck, Charon]"]
  note b = prefetch_single_flight[OF rw, THEN conjunct2, THEN conjunct1, rule_format, OF f]
  have 1: "fst (prefetch_all ''hi'' [Kore, Puck, Charon] ?i) = [Promise 0, Promise 0, Promise 0]"
    using a n by (simp add: numeral_3_eq_3)
  have 2: "synth_calls ''hi'' (trace (snd (prefetch_all ''hi'' [Kore, Puck, Charon] ?i))) = 1"
    using a n by simp
  have 3: "prefetch_all ''hi'' [Puck, Charon] ?w = ([Promise 0, Promise 0], ?w)"
    using b[THEN conjunct1, of "[Puck, Charon]"] by (simp add: numeral_2_eq_2)
  have 4: "\<exists>w'. step ?w (FetchDone 0 Rejects) = Some w' \<and> is_settled w' (Promise 0)"
    using b[THEN conjunct2] by blast
  show ?thesis using ri rw f 1 2 3 4 by blast
qed

subsection \<open>C5: failure of the attempt\<close>

text \<open>
  Claim C5 holds when the request was issued and then fails (lemma
  \<open>async_failure_clears_pending\<close>: a rejection, or a payload that \<^verbatim>\<open>atob\<close> rejects,
  leaves the text uncached and not pending, settles the promise, and the next
  call of \<^verbatim>\<open>prefetchTTS\<close> calls the synthesizer again).  It fails when the
  attempt fails before its \<^verbatim>\<open>await\<close>, which is when \<^verbatim>\<open>getAI\<close> throws because the API
  key is not set: \<^verbatim>\<open>finally\<close> deletes the pending entry before
  \<^verbatim>\<open>pendingRequests.set(text, fetchPromise)\<close> adds it.  Evaluated for
  \<^verbatim>\<open>prefetchTTS("hello")\<close> in the initial state without a key: the settled promise
  0 stays registered for the text with no request in flight, and a later call
  returns that promise without a new attempt, even when the key has been set
  in the meantime.
\<close>

theorem stale_pending_entry_without_api_key:
  "pendingRequests (snd (prefetchTTS ''hello'' Kore (init False Running))) ''hello'' = Some 0 \<and>
   is_settled (snd (prefetchTTS ''hello'' Kore (init False Running))) (Promise 0) \<and>
   fetches (snd (prefetchTTS ''hello'' Kore (init False Running))) 0 = None \<and>
   cached ''hello'' (snd (prefetchTTS ''hello'' Kore (init False Running))) = None \<and>
   trace (snd (prefetchTTS ''hello'' Kore (init False Running))) = [ConsoleError ApiKeyMissing] \<and>
   prefetchTTS ''hello'' Kore (snd (prefetchTTS ''hello'' Kore (init False Running)))
     = (Promise 0, snd (prefetchTTS ''hello'' Kore (init False Running))) \<and>
   prefetchTTS ''hello'' Kore ((snd (prefetchTTS ''hello'' Kore (init False Running)))\<lparr>api_key := True\<rparr>)
     = (Promise 0, (snd (prefetchTTS ''hello'' Kore (init False Running)))\<lparr>api_key := True\<rparr>)"
proof -
  let ?w = "snd (prefetchTTS ''hello'' Kore (init False Running))"
  have e: "?w = (init False Running)\<lparr>next_promise := Suc 0,
              trace := [ConsoleError ApiKeyMissing],
              pendingRequests := [''hello'' \<mapsto> 0],
              settled := {0}\<rparr>"
    by (subst prefetch_getAI_fails) (simp_all add: init_def)
  have 1: "pendingRequests ?w ''hello'' = Some 0" by (simp add: e)
  have 2: "is_settled ?w (Promise 0)" by (simp add: e is_settled_def)
  have 3: "fetches ?w 0 = None" by (subst e) (simp add: init_def)
  have 4: "cached ''hello'' ?w = None" unfolding cached_def by (subst e) (simp add: init_def)
  have 5: "trace ?w = [ConsoleError ApiKeyMissing]" by (simp add: e)
  have c: "audioCache ?w ''hello'' = None" using 4 by (simp add: cached_def)
  have 6: "prefetchTTS ''hello'' Kore ?w = (Promise 0, ?w)"
    using 1 c by (simp add: prefetchTTS_def)
  have 7: "prefetchTTS ''hello'' Kore (?w\<lparr>api_key := True\<rparr>) = (Promise 0, ?w\<lparr>api_key := True\<rparr>)"
    using 1 c by (simp add: prefetchTTS_def)
  show ?thesis using 1 2 3 4 5 6 7 by blast
qed

subsection \<open>Facts about playing a cached text\<close>

lemma getAudioContext_next_call:
  "fst (getAudioContext (w\<lparr>next_call := n\<rparr>)) = fst (getAudioContext w)"
  by (simp add: getAudioContext_def split: option.splits)

lemma trace_play_output_Some:
  "trace (play_output c t (Some bytes) w) =
     trace w @ PcmToAudioBuffer c (p_text t) #
       (case pcmToAudioBuffer bytes 24000 of Inl e \<Rightarrow> [PlayRejected c e] | Inr b \<Rightarrow> [])"
  by (simp add: play_output_def emit_def Let_def split: sum.splits)

lemma sources_play_output_Some:
  "pcmToAudioBuffer bytes 24000 = Inr buf \<Longrightarrow>
   sources (play_output c t (Some bytes) w) c =
     Some \<lparr>s_buffer = buf, s_onEnded = p_onEnded t, s_stopped = False, s_ended = False\<rparr>"
  by (simp add: play_output_def emit_def Let_def)

lemma playTTS_cached_running:
  assumes "audioCache w tx = Some bytes" and "fst (getAudioContext w) = Running"
  shows "playTTS tx cb v w =
           play_output (next_call w)
             \<lparr>p_text = tx, p_onEnded = cb, p_voice = v, p_pc = AwaitResume\<rparr> (Some bytes)
             (stopAudio (snd (getAudioContext (w\<lparr>next_call := Suc (next_call w)\<rparr>))))"
proof -
  obtain st w1 where g: "getAudioContext (w\<lparr>next_call := Suc (next_call w)\<rparr>) = (st, w1)"
    by (cases "getAudioContext (w\<lparr>next_call := Suc (next_call w)\<rparr>)")
  have st: "st = Running"
    using assms(2) g getAudioContext_next_call[where w = w and n = "Suc (next_call w)"] by simp
  have c: "audioCache (stopAudio w1) tx = Some bytes"
    using assms(1) getAudioContext_fields[OF g] by simp
  show ?thesis using g st c by (simp add: playTTS_unfold[OF g] play_resolve_def)
qed

lemma pcm_example:
  "pcmToAudioBuffer [0, 0, 255, 127] 24000 =
     Inr \<lparr>numberOfChannels = 1, sampleRate = 24000, channelData = [0, 32767 / 32768]\<rparr>"
  by (subst pcmToAudioBuffer_Inr)
     (simp_all add: Int16Array_def int16_of_bytes_def normalize_sample_def upt_rec)

lemma fetch_hi_done:
  "fetch_complete 0 \<lparr>f_text = ''hi'', f_voice = Kore\<rparr> (Responds (Some ''AAD/fw==''))
     (snd (prefetchTTS ''hi'' Kore (init True Running))) =
   (init True Running)\<lparr>next_promise := Suc 0,
      trace := [Synthesize ''hi'' Kore, DecodeBase64 ''hi''],
      audioCache := [''hi'' \<mapsto> [0, 0, 255, 127]],
      settled := {0}\<rparr>"
proof -
  have ne: "''AAD/fw=='' \<noteq> []" by simp
  show ?thesis
    by (simp add: fetch_complete_stores[OF decodeBase64_example ne] prefetch_hi_init emit_def)
       (simp add: init_def)
qed

lemma reachable_hi_cached:
  "reachable (fetch_complete 0 \<lparr>f_text = ''hi'', f_voice = Kore\<rparr> (Responds (Some ''AAD/fw==''))
     (snd (prefetchTTS ''hi'' Kore (init True Running))))"
  by (rule reachable_step[OF reachable_prefetch_hi, of "FetchDone 0 (Responds (Some ''AAD/fw==''))"])
     (simp add: step_def prefetch_hi_init)

subsection \<open>Facts about the continuations of \<^verbatim>\<open>playTTS\<close> and the example states\<close>

lemma reachable_run: "reachable w \<Longrightarrow> run w es = Some w' \<Longrightarrow> reachable w'"
proof (induction es arbitrary: w)
  case Nil
  then show ?case by simp
next
  case (Cons e es)
  then show ?case
    by (cases "step w e") (auto intro: reachable_step)
qed

lemma step_AudioReady_miss:
  assumes "plays w c = Some t" and "p_pc t = AwaitAudio a" and "is_settled w a"
    and "audioCache w (p_text t) = None"
  shows "step w (AudioReady c) =
           Some (if p_onEnded t
                 then w\<lparr>plays := (plays w)(c := None), trace := trace w @ [OnEnded c]\<rparr>
                 else w\<lparr>plays := (plays w)(c := None)\<rparr>)"
  using assms by (simp add: step_def play_output_def emit_def)

lemma step_AudioReady_hit:
  assumes "plays w c = Some t" and "p_pc t = AwaitAudio a" and "is_settled w a"
    and "audioCache w (p_text t) = Some bytes" and "pcmToAudioBuffer bytes 24000 = Inr buf"
  shows "step w (AudioReady c) =
           Some (w\<lparr>plays := (plays w)(c := None),
                   trace := trace w @ [PcmToAudioBuffer c (p_text t)],
                   sources := (sources w)(c \<mapsto>
                      \<lparr>s_buffer = buf, s_onEnded = p_onEnded t,
                       s_stopped = False, s_ended = False\<rparr>),
                   currentSource := Some c\<rparr>)"
  using assms by (simp add: step_def play_output_def emit_def Let_def)

lemma step_SourceEnded:
  assumes "sources w c = Some src" and "\<not> s_ended src"
  shows "step w (SourceEnded c) = Some (source_onended c src w)"
    and "trace (source_onended c src w) = trace w @ (if s_onEnded src then [OnEnded c] else [])"
  using assms by (simp_all add: step_def source_onended_def emit_def Let_def)

lemma run_two_plays:
  "run (init True Running) [CallPlay ''a'' True Kore, CallPlay ''b'' True Kore]
     = Some two_plays_pending"
  by (simp add: step_def init_def playTTS_def getAudioContext_def stopAudio_def
        play_resolve_def prefetchTTS_def getAI_def emit_def two_plays_pending_def Let_def
        numeral_2_eq_2)

lemma run_hi_cached:
  "run (init True Running)
     [CallPrefetch ''hi'' Kore, FetchDone 0 (Responds (Some ''AAD/fw==''))] = Some hi_cached"
  using fetch_hi_done
  by (simp add: step_def prefetch_hi_init) (simp add: init_def hi_cached_def)

lemma reachable_two_plays: "reachable two_plays_pending"
  by (rule reachable_run[OF reachable_init run_two_plays])

lemma reachable_hi: "reachable hi_cached"
  by (rule reachable_run[OF reachable_init run_hi_cached])

lemma run_append: "run w es = Some w' \<Longrightarrow> run w (es @ es') = run w' es'"
  by (induction es arbitrary: w) (auto split: option.splits)

lemma a_rejected:
  "fetch_complete 0 \<lparr>f_text = ''a'', f_voice = Kore\<rparr> Rejects two_plays_pending =
     two_plays_pending\<lparr>fetches := [1 \<mapsto> \<lparr>f_text = ''b'', f_voice = Kore\<rparr>],
        trace := [Synthesize ''a'' Kore, Synthesize ''b'' Kore, ConsoleError SynthesisError],
        pendingRequests := [''b'' \<mapsto> 1], settled := {0}\<rparr>"
  by (simp add: fetch_complete_rejects) (auto simp: two_plays_pending_def)

lemma step_a_rejected:
  "step two_plays_pending (FetchDone 0 Rejects) =
     Some (fetch_complete 0 \<lparr>f_text = ''a'', f_voice = Kore\<rparr> Rejects two_plays_pending)"
  by (simp add: step_def two_plays_pending_def)

lemma step_a_resolved:
  "step two_plays_pending (FetchDone 0 (Responds (Some ''AAD/fw==''))) =
     Some (fetch_complete 0 \<lparr>f_text = ''a'', f_voice = Kore\<rparr> (Responds (Some ''AAD/fw==''))
             two_plays_pending)"
  by (simp add: step_def two_plays_pending_def)

lemma plays_two_plays_0:
  "plays two_plays_pending 0 =
     Some \<lparr>p_text = ''a'', p_onEnded = True, p_voice = Kore, p_pc = AwaitAudio (Promise 0)\<rparr>"
  by (simp add: two_plays_pending_def)

lemma hi_cached_fields:
  "audioCache hi_cached ''hi'' = Some [0, 0, 255, 127]" "fst (getAudioContext hi_cached) = Running"
  "next_call hi_cached = 0" "plays hi_cached = Map.empty" "currentSource hi_cached = None"
  by (simp_all add: hi_cached_def getAudioContext_def)

lemma sources_play_hi:
  "sources (playTTS ''hi'' True Kore hi_cached) 0 =
     Some \<lparr>s_buffer = \<lparr>numberOfChannels = 1, sampleRate = 24000, channelData = [0, 32767 / 32768]\<rparr>,
           s_onEnded = True, s_stopped = False, s_ended = False\<rparr>"
  using sources_play_output_Some[OF pcm_example]
  by (simp add: playTTS_cached_running[OF hi_cached_fields(1,2)] hi_cached_fields)

lemma audible_play_resolve:
  assumes "audible (play_resolve c t w) h"
  shows "audible w h \<or> h = c"
proof (cases "audioCache w (p_text t)")
  case (Some bytes)
  then show ?thesis using assms audible_play_output[of c t "Some bytes" w]
    by (auto simp: play_resolve_def)
next
  case None
  show ?thesis
  proof (cases "pendingRequests w (p_text t)")
    case (Some p)
    then show ?thesis using None assms by (simp add: play_resolve_def audible_def)
  next
    case N2: None
    obtain a w1 where pf: "prefetchTTS (p_text t) (p_voice t) w = (a, w1)"
      by (cases "prefetchTTS (p_text t) (p_voice t) w")
    then have "sources w1 = sources (snd (prefetchTTS (p_text t) (p_voice t) w))" by simp
    then have "sources w1 = sources w" by simp
    then show ?thesis using None N2 pf assms by (simp add: play_resolve_def audible_def)
  qed
qed

lemma audible_playTTS_old:
  assumes "audible (playTTS tx cb v w) h"
  shows "(audible w h \<and> currentSource w \<noteq> Some h) \<or> h = next_call w"
proof -
  obtain st w1 where g: "getAudioContext (w\<lparr>next_call := Suc (next_call w)\<rparr>) = (st, w1)"
    by (cases "getAudioContext (w\<lparr>next_call := Suc (next_call w)\<rparr>)")
  note f = getAudioContext_fields[OF g]
  have "audible w1 h = audible w h" using f by (simp add: audible_def)
  then have s: "audible (stopAudio w1) h \<longleftrightarrow> audible w h \<and> currentSource w \<noteq> Some h"
    using f audible_stopAudio[of w1 h] by simp
  show ?thesis
  proof (cases "st = Suspended")
    case True
    then have "audible (stopAudio w1) h"
      using assms by (simp add: playTTS_unfold[OF g] audible_def)
    then show ?thesis using s by simp
  next
    case False
    then have "audible (play_resolve (next_call w)
                 \<lparr>p_text = tx, p_onEnded = cb, p_voice = v, p_pc = AwaitResume\<rparr> (stopAudio w1)) h"
      using assms by (simp add: playTTS_unfold[OF g])
    then show ?thesis using audible_play_resolve s by blast
  qed
qed

lemma step_prefetch_hi:
  "step (init True Running) (CallPrefetch ''hi'' Kore)
     = Some (snd (prefetchTTS ''hi'' Kore (init True Running)))"
  by (simp add: step_def)

lemma step_fetch_hi:
  "step (snd (prefetchTTS ''hi'' Kore (init True Running)))
     (FetchDone 0 (Responds (Some ''AAD/fw==''))) = Some hi_cached"
  using run_hi_cached by (simp add: step_prefetch_hi split: option.splits)

lemma seq_reachable_play_hi: "seq_reachable (playTTS ''hi'' True Kore hi_cached)"
proof -
  have 1: "seq_reachable (snd (prefetchTTS ''hi'' Kore (init True Running)))"
    by (rule seq_step[OF seq_init _ step_prefetch_hi]) (simp add: sequential_def)
  have 2: "seq_reachable hi_cached"
    by (rule seq_step[OF 1 _ step_fetch_hi]) (simp add: sequential_def)
  show ?thesis
    by (rule seq_step[OF 2, of "CallPlay ''hi'' True Kore"])
       (simp_all add: sequential_def step_def hi_cached_fields)
qed

subsection \<open>C1: the callback of a superseded call\<close>

text \<open>
  Claim C1 says that after \<^verbatim>\<open>playTTS("a", cbA)\<close> and then \<^verbatim>\<open>playTTS("b", cbB)\<close>,
  issued before the audio of \<^verbatim>\<open>"a"\<close> is resolved, \<^verbatim>\<open>cbA\<close> is never invoked.  The
  second call does not reach the first: when the request for \<^verbatim>\<open>"a"\<close> is
  rejected, the first call resumes, finds no cached bytes and invokes its
  callback.
\<close>

theorem superseded_onEnded_counterexample:
  "map_option trace
     (run (init True Running)
        [CallPlay ''a'' True Kore, CallPlay ''b'' True Kore, FetchDone 0 Rejects, AudioReady 0])
     = Some [Synthesize ''a'' Kore, Synthesize ''b'' Kore, ConsoleError SynthesisError, OnEnded 0]"
proof -
  let ?w = "fetch_complete 0 \<lparr>f_text = ''a'', f_voice = Kore\<rparr> Rejects two_plays_pending"
  have r: "run (init True Running)
        [CallPlay ''a'' True Kore, CallPlay ''b'' True Kore, FetchDone 0 Rejects, AudioReady 0]
      = run two_plays_pending [FetchDone 0 Rejects, AudioReady 0]"
    using run_append[OF run_two_plays, of "[FetchDone 0 Rejects, AudioReady 0]"] by simp
  have s: "run two_plays_pending [FetchDone 0 Rejects, AudioReady 0] = step ?w (AudioReady 0)"
    by (simp add: step_a_rejected split: option.splits)
  have "map_option trace (step ?w (AudioReady 0))
     = Some [Synthesize ''a'' Kore, Synthesize ''b'' Kore, ConsoleError SynthesisError, OnEnded 0]"
    unfolding a_rejected
    by (simp add: step_def two_plays_pending_def is_settled_def play_output_def emit_def)
  then show ?thesis unfolding r s .
qed

text \<open>
  Claim C1 as amended.  In every reachable state the callback of each call of
  \<^verbatim>\<open>playTTS\<close> has been invoked at most once.  A suspended call whose awaited
  promise is settled has not invoked it yet; on resumption it invokes it at
  once when the text is not cached, and otherwise (the cached bytes holding at
  least one sample) starts its node, which becomes the tracked one.  A node that
  has not dispatched \<^verbatim>\<open>ended\<close> has not invoked the callback, and invokes it when
  \<^verbatim>\<open>ended\<close> is dispatched.  This is so for every call, whether or not a later call
  has begun in the meantime: the callback of the earlier call is not suppressed.
\<close>

theorem onEnded_once_per_call:
  assumes "reachable w"
  shows "count_list (trace w) (OnEnded c) \<le> 1 \<and>
         (\<forall>t a. plays w c = Some t \<and> p_pc t = AwaitAudio a \<and> is_settled w a \<and>
                 cached (p_text t) w = None \<and> p_onEnded t \<longrightarrow>
            count_list (trace w) (OnEnded c) = 0 \<and>
            (\<exists>w'. step w (AudioReady c) = Some w' \<and> trace w' = trace w @ [OnEnded c] \<and>
                  count_list (trace w') (OnEnded c) = 1)) \<and>
         (\<forall>t a bytes buf. plays w c = Some t \<and> p_pc t = AwaitAudio a \<and> is_settled w a \<and>
                 cached (p_text t) w = Some bytes \<and> pcmToAudioBuffer bytes 24000 = Inr buf \<longrightarrow>
            (\<exists>w'. step w (AudioReady c) = Some w' \<and> audible w' c \<and>
                  currentSource w' = Some c \<and> count_list (trace w') (OnEnded c) = 0)) \<and>
         (\<forall>src. sources w c = Some src \<and> \<not> s_ended src \<and> s_onEnded src \<longrightarrow>
            count_list (trace w) (OnEnded c) = 0 \<and>
            (\<exists>w'. step w (SourceEnded c) = Some w' \<and> trace w' = trace w @ [OnEnded c] \<and>
                  count_list (trace w') (OnEnded c) = 1))"
proof -
  have inv: "play_inv w" using assms by (rule reachable_play_inv)
  have 1: "count_list (trace w) (OnEnded c) \<le> 1"
    using inv unfolding play_inv_def by blast
  have susp: "\<And>t. plays w c = Some t \<Longrightarrow> count_list (trace w) (OnEnded c) = 0"
    using inv unfolding play_inv_def by blast
  have node: "\<And>src. sources w c = Some src \<Longrightarrow>
      count_list (trace w) (OnEnded c) = (if s_ended src \<and> s_onEnded src then 1 else 0)"
    using inv unfolding play_inv_def by blast
  have 2: "\<forall>t a. plays w c = Some t \<and> p_pc t = AwaitAudio a \<and> is_settled w a \<and>
                 cached (p_text t) w = None \<and> p_onEnded t \<longrightarrow>
            count_list (trace w) (OnEnded c) = 0 \<and>
            (\<exists>w'. step w (AudioReady c) = Some w' \<and> trace w' = trace w @ [OnEnded c] \<and>
                  count_list (trace w') (OnEnded c) = 1)"
  proof (intro allI impI)
    fix t a
    assume h: "plays w c = Some t \<and> p_pc t = AwaitAudio a \<and> is_settled w a \<and>
                 cached (p_text t) w = None \<and> p_onEnded t"
    then have z: "count_list (trace w) (OnEnded c) = 0" using susp by blast
    have "step w (AudioReady c) =
            Some (w\<lparr>plays := (plays w)(c := None), trace := trace w @ [OnEnded c]\<rparr>)"
      using h step_AudioReady_miss[of w c t a] by (simp add: cached_def)
    then show "count_list (trace w) (OnEnded c) = 0 \<and>
            (\<exists>w'. step w (AudioReady c) = Some w' \<and> trace w' = trace w @ [OnEnded c] \<and>
                  count_list (trace w') (OnEnded c) = 1)"
      using z by (simp add: count_list_snoc)
  qed
  have 3: "\<forall>t a bytes buf. plays w c = Some t \<and> p_pc t = AwaitAudio a \<and> is_settled w a \<and>
                 cached (p_text t) w = Some bytes \<and> pcmToAudioBuffer bytes 24000 = Inr buf \<longrightarrow>
            (\<exists>w'. step w (AudioReady c) = Some w' \<and> audible w' c \<and>
                  currentSource w' = Some c \<and> count_list (trace w') (OnEnded c) = 0)"
  proof (intro allI impI)
    fix t a bytes buf
    assume h: "plays w c = Some t \<and> p_pc t = AwaitAudio a \<and> is_settled w a \<and>
                 cached (p_text t) w = Some bytes \<and> pcmToAudioBuffer bytes 24000 = Inr buf"
    then have z: "count_list (trace w) (OnEnded c) = 0" using susp by blast
    have "step w (AudioReady c) =
           Some (w\<lparr>plays := (plays w)(c := None),
                   trace := trace w @ [PcmToAudioBuffer c (p_text t)],
                   sources := (sources w)(c \<mapsto>
                      \<lparr>s_buffer = buf, s_onEnded = p_onEnded t,
                       s_stopped = False, s_ended = False\<rparr>),
                   currentSource := Some c\<rparr>)"
      using h step_AudioReady_hit[of w c t a bytes buf] by (simp add: cached_def)
    then show "\<exists>w'. step w (AudioReady c) = Some w' \<and> audible w' c \<and>
                  currentSource w' = Some c \<and> count_list (trace w') (OnEnded c) = 0"
      using z by (simp add: count_list_snoc audible_def)
  qed
  have 4: "\<forall>src. sources w c = Some src \<and> \<not> s_ended src \<and> s_onEnded src \<longrightarrow>
            count_list (trace w) (OnEnded c) = 0 \<and>
            (\<exists>w'. step w (SourceEnded c) = Some w' \<and> trace w' = trace w @ [OnEnded c] \<and>
                  count_list (trace w') (OnEnded c) = 1)"
  proof (intro allI impI)
    fix src
    assume h: "sources w c = Some src \<and> \<not> s_ended src \<and> s_onEnded src"
    then have z: "count_list (trace w) (OnEnded c) = 0" using node[of src] by simp
    show "count_list (trace w) (OnEnded c) = 0 \<and>
            (\<exists>w'. step w (SourceEnded c) = Some w' \<and> trace w' = trace w @ [OnEnded c] \<and>
                  count_list (trace w') (OnEnded c) = 1)"
      using h z step_SourceEnded[of w c src] by (simp add: count_list_snoc)
  qed
  show ?thesis using 1 2 3 4 by blast
qed

text \<open>The amended claim for the superseded call 0 of \<open>two_plays_pending\<close>, once
  with its request rejected and once with its request answered, and for the
  node of a call that played the cached text \<^verbatim>\<open>"hi"\<close>.\<close>

theorem onEnded_once_per_call_witness:
  "reachable (fetch_complete 0 \<lparr>f_text = ''a'', f_voice = Kore\<rparr> Rejects two_plays_pending) \<and>
   (\<exists>w'. step (fetch_complete 0 \<lparr>f_text = ''a'', f_voice = Kore\<rparr> Rejects two_plays_pending)
            (AudioReady 0) = Some w' \<and>
         count_list (trace w') (OnEnded 0) = 1) \<and>
   reachable (fetch_complete 0 \<lparr>f_text = ''a'', f_voice = Kore\<rparr> (Responds (Some ''AAD/fw==''))
                two_plays_pending) \<and>
   (\<exists>w'. step (fetch_complete 0 \<lparr>f_text = ''a'', f_voice = Kore\<rparr> (Responds (Some ''AAD/fw==''))
                two_plays_pending) (AudioReady 0) = Some w' \<and>
         audible w' 0 \<and> count_list (trace w') (OnEnded 0) = 0) \<and>
   reachable (playTTS ''hi'' True Kore hi_cached) \<and>
   count_list (trace (playTTS ''hi'' True Kore hi_cached)) (OnEnded 0) \<le> 1 \<and>
   (\<exists>w'. step (playTTS ''hi'' True Kore hi_cached) (SourceEnded 0) = Some w' \<and>
         count_list (trace w') (OnEnded 0) = 1)"
proof -
  let ?fa = "\<lparr>f_text = ''a'', f_voice = Kore\<rparr>"
  let ?t = "\<lparr>p_text = ''a'', p_onEnded = True, p_voice = Kore, p_pc = AwaitAudio (Promise 0)\<rparr>"
  let ?wR = "fetch_complete 0 ?fa Rejects two_plays_pending"
  let ?wS = "fetch_complete 0 ?fa (Responds (Some ''AAD/fw=='')) two_plays_pending"
  let ?w3 = "playTTS ''hi'' True Kore hi_cached"
  let ?src = "\<lparr>s_buffer = \<lparr>numberOfChannels = 1, sampleRate = 24000, channelData = [0, 32767 / 32768]\<rparr>,
           s_onEnded = True, s_stopped = False, s_ended = False\<rparr>"
  have rR: "reachable ?wR" by (rule reachable_step[OF reachable_two_plays step_a_rejected])
  have rS: "reachable ?wS" by (rule reachable_step[OF reachable_two_plays step_a_resolved])
  have r3: "reachable ?w3"
    by (rule reachable_step[OF reachable_hi, of "CallPlay ''hi'' True Kore"]) (simp add: step_def)
  have ne: "''AAD/fw=='' \<noteq> []" by simp
  have hR: "plays ?wR 0 = Some ?t \<and> p_pc ?t = AwaitAudio (Promise 0) \<and>
            is_settled ?wR (Promise 0) \<and> cached (p_text ?t) ?wR = None \<and> p_onEnded ?t"
  proof -
    have "plays ?wR 0 = Some ?t" by (simp add: plays_two_plays_0)
    moreover have "is_settled ?wR (Promise 0)" by (rule fetch_complete_settles)
    moreover have "cached ''a'' ?wR = None"
      by (simp add: cached_def fetch_complete_rejects two_plays_pending_def)
    ultimately show ?thesis by simp
  qed
  have hS: "plays ?wS 0 = Some ?t \<and> p_pc ?t = AwaitAudio (Promise 0) \<and>
            is_settled ?wS (Promise 0) \<and> cached (p_text ?t) ?wS = Some [0, 0, 255, 127] \<and>
            pcmToAudioBuffer [0, 0, 255, 127] 24000 =
              Inr \<lparr>numberOfChannels = 1, sampleRate = 24000, channelData = [0, 32767 / 32768]\<rparr>"
  proof -
    have "plays ?wS 0 = Some ?t" by (simp add: plays_two_plays_0)
    moreover have "is_settled ?wS (Promise 0)" by (rule fetch_complete_settles)
    moreover have "cached ''a'' ?wS = Some [0, 0, 255, 127]"
      by (simp add: cached_def fetch_complete_stores[OF decodeBase64_example ne] emit_def)
    ultimately show ?thesis using pcm_example by simp
  qed
  have h3: "sources ?w3 0 = Some ?src \<and> \<not> s_ended ?src \<and> s_onEnded ?src"
    by (simp add: sources_play_hi)
  note a = onEnded_once_per_call[OF rR, where c = 0, THEN conjunct2, THEN conjunct1,
             rule_format, OF hR]
  note b = onEnded_once_per_call[OF rS, where c = 0, THEN conjunct2, THEN conjunct2,
             THEN conjunct1, rule_format, OF hS]
  note c = onEnded_once_per_call[OF r3, where c = 0, THEN conjunct2, THEN conjunct2,
             THEN conjunct2, rule_format, OF h3]
  note d = onEnded_once_per_call[OF r3, where c = 0, THEN conjunct1]
  have 1: "\<exists>w'. step ?wR (AudioReady 0) = Some w' \<and> count_list (trace w') (OnEnded 0) = 1"
    using a by blast
  have 2: "\<exists>w'. step ?wS (AudioReady 0) = Some w' \<and> audible w' 0 \<and>
                count_list (trace w') (OnEnded 0) = 0"
    using b by blast
  have 3: "\<exists>w'. step ?w3 (SourceEnded 0) = Some w' \<and> count_list (trace w') (OnEnded 0) = 1"
    using c by blast
  show ?thesis using rR rS r3 1 2 3 d by blast
qed

subsection \<open>C7: what the decoder computes\<close>

lemma atob_blank: "atob '' '' = Inr []"
  by (simp add: atob_def strip_padding_def is_ascii_whitespace_def)

lemma decodeBase64_eq:
  "decodeBase64 payload =
     (case atob payload of Inl e \<Rightarrow> Inl e | Inr codes \<Rightarrow> Inr (map of_nat codes))"
  by (simp add: decodeBase64_def Let_def decodeBase64_loop_map split: sum.splits)

text \<open>
  Claim C7 says that every payload of \<open>2N\<close> bytes gives a buffer of \<open>N\<close> samples.
  For \<open>N = 0\<close> it gives none.  The payload made of one space is accepted by
  \<^verbatim>\<open>atob\<close> and decodes to no bytes; being a non-empty string it passes
  \<^verbatim>\<open>if (base64Audio)\<close> and the empty array is cached; \<^verbatim>\<open>pcmToAudioBuffer\<close> then
  fails with the \<^verbatim>\<open>NotSupportedError\<close> of \<^verbatim>\<open>createBuffer\<close>, and the call of
  \<^verbatim>\<open>playTTS\<close> is rejected.
\<close>

theorem empty_payload_counterexample:
  "atob '' '' = Inr [] \<and>
   decodeBase64 '' '' = Inr [] \<and>
   length ([] :: byte list) = 2 * 0 \<and>
   pcmToAudioBuffer [] 24000 = Inl NotSupportedError \<and>
   map_option trace
     (run (init True Running)
        [CallPrefetch ''hi'' Kore, FetchDone 0 (Responds (Some '' '')), CallPlay ''hi'' True Kore])
     = Some [Synthesize ''hi'' Kore, DecodeBase64 ''hi'',
             PcmToAudioBuffer 0 ''hi'', PlayRejected 0 NotSupportedError]"
proof -
  have d: "decodeBase64 '' '' = Inr []" by (simp add: decodeBase64_eq atob_blank)
  have p: "pcmToAudioBuffer [] 24000 = Inl NotSupportedError"
    by (rule pcmToAudioBuffer_Inl) simp
  have ne: "'' '' \<noteq> []" by simp
  have r: "map_option trace
     (run (init True Running)
        [CallPrefetch ''hi'' Kore, FetchDone 0 (Responds (Some '' '')), CallPlay ''hi'' True Kore])
     = Some [Synthesize ''hi'' Kore, DecodeBase64 ''hi'',
             PcmToAudioBuffer 0 ''hi'', PlayRejected 0 NotSupportedError]"
    by (simp add: step_def prefetch_hi_init fetch_complete_stores[OF d ne] emit_def)
       (simp add: init_def playTTS_def getAudioContext_def stopAudio_def play_resolve_def
          play_output_def emit_def p Let_def)
  show ?thesis using atob_blank d p r by simp
qed

text \<open>
  Claim C7 as amended.  \<^verbatim>\<open>decodeBase64\<close> returns, for every payload that \<^verbatim>\<open>atob\<close>
  accepts, the bytes that are the character codes returned by \<^verbatim>\<open>atob\<close> (lemma
  \<open>decodeBase64_eq\<close> gives the other case: it throws what \<^verbatim>\<open>atob\<close> throws).
  When these are \<open>2N\<close> bytes with \<open>N > 0\<close>,
  \<^verbatim>\<open>pcmToAudioBuffer(bytes, ctx, 24000)\<close> returns a buffer with one channel, sample
  rate 24000 and \<open>N\<close> samples; sample \<open>i\<close> is the little-endian signed 16-bit
  integer made of bytes \<open>2i\<close> and \<open>2i+1\<close> divided by 32768, and lies between
  \<open>-1\<close> and \<open>1\<close>.  With \<open>N = 2400\<close>: 4800 bytes give 2400 samples.  When
  \<open>N = 0\<close>, \<^verbatim>\<open>pcmToAudioBuffer\<close> throws \<^verbatim>\<open>NotSupportedError\<close>.
\<close>

theorem decode_samples:
  assumes "atob payload = Inr codes" and "length codes = 2 * N"
  shows "decodeBase64 payload = Inr (map of_nat codes) \<and>
         (0 < N \<longrightarrow>
            (\<exists>buf. pcmToAudioBuffer (map of_nat codes) 24000 = Inr buf \<and>
               numberOfChannels buf = 1 \<and> sampleRate buf = 24000 \<and>
               length (channelData buf) = N \<and>
               (\<forall>i<N. channelData buf ! i =
                         real_of_int (le_signed16 (of_nat (codes ! (2 * i)))
                                                  (of_nat (codes ! (2 * i + 1)))) / 32768 \<and>
                       - 1 \<le> channelData buf ! i \<and> channelData buf ! i \<le> 1))) \<and>
         (N = 0 \<longrightarrow> pcmToAudioBuffer (map of_nat codes) 24000 = Inl NotSupportedError)"
proof -
  let ?bytes = "map of_nat codes :: byte list"
  have d: "decodeBase64 payload = Inr ?bytes"
    using assms(1) by (simp add: decodeBase64_eq)
  have n: "length ?bytes div 2 = N" using assms(2) by simp
  let ?buf = "\<lparr>numberOfChannels = 1, sampleRate = 24000,
                channelData = map normalize_sample (Int16Array ?bytes N)\<rparr>"
  have pos: "0 < N \<longrightarrow>
            (\<exists>buf. pcmToAudioBuffer ?bytes 24000 = Inr buf \<and>
               numberOfChannels buf = 1 \<and> sampleRate buf = 24000 \<and>
               length (channelData buf) = N \<and>
               (\<forall>i<N. channelData buf ! i =
                         real_of_int (le_signed16 (of_nat (codes ! (2 * i)))
                                                  (of_nat (codes ! (2 * i + 1)))) / 32768 \<and>
                       - 1 \<le> channelData buf ! i \<and> channelData buf ! i \<le> 1))"
  proof
    assume N: "0 < N"
    have eq: "pcmToAudioBuffer ?bytes 24000 = Inr ?buf"
      using pcmToAudioBuffer_Inr[of ?bytes 24000] N n by simp
    have len: "length (channelData ?buf) = N" by (simp add: Int16Array_def)
    have smp: "\<forall>i<N. channelData ?buf ! i =
                real_of_int (le_signed16 (of_nat (codes ! (2 * i)))
                                         (of_nat (codes ! (2 * i + 1)))) / 32768 \<and>
              - 1 \<le> channelData ?buf ! i \<and> channelData ?buf ! i \<le> 1"
    proof (intro allI impI)
      fix i assume i: "i < N"
      then have b: "?bytes ! (2 * i) = of_nat (codes ! (2 * i))"
        "?bytes ! (2 * i + 1) = of_nat (codes ! (2 * i + 1))"
        using assms(2) by simp_all
      have "channelData ?buf ! i
              = normalize_sample (int16_of_bytes (?bytes ! (2 * i)) (?bytes ! (2 * i + 1)))"
        using i by (simp add: Int16Array_def)
      then have c: "channelData ?buf ! i
              = normalize_sample (int16_of_bytes (of_nat (codes ! (2 * i)))
                                                 (of_nat (codes ! (2 * i + 1))))"
        using b by simp
      show "channelData ?buf ! i =
                real_of_int (le_signed16 (of_nat (codes ! (2 * i)))
                                         (of_nat (codes ! (2 * i + 1)))) / 32768 \<and>
              - 1 \<le> channelData ?buf ! i \<and> channelData ?buf ! i \<le> 1"
        unfolding c
        using normalize_sample_bounds[of "int16_of_bytes (of_nat (codes ! (2 * i)))
                                                 (of_nat (codes ! (2 * i + 1)))"]
        by (simp add: normalize_sample_def sint_int16_of_bytes)
    qed
    show "\<exists>buf. pcmToAudioBuffer ?bytes 24000 = Inr buf \<and>
               numberOfChannels buf = 1 \<and> sampleRate buf = 24000 \<and>
               length (channelData buf) = N \<and>
               (\<forall>i<N. channelData buf ! i =
                         real_of_int (le_signed16 (of_nat (codes ! (2 * i)))
                                                  (of_nat (codes ! (2 * i + 1)))) / 32768 \<and>
                       - 1 \<le> channelData buf ! i \<and> channelData buf ! i \<le> 1)"
      using eq len smp by (intro exI[of _ ?buf]) simp
  qed
  have zero: "N = 0 \<longrightarrow> pcmToAudioBuffer ?bytes 24000 = Inl NotSupportedError"
    using pcmToAudioBuffer_Inl[of ?bytes 24000] n by simp
  show ?thesis using d pos zero by blast
qed

text \<open>The amended claim at the payload \<^verbatim>\<open>AAD/fw==\<close>, which is the two samples 0
  and 32767, and at the payload made of one space.\<close>

theorem decode_samples_witness:
  "atob ''AAD/fw=='' = Inr [0, 0, 255, 127] \<and>
   length [0, 0, 255, 127 :: nat] = 2 * 2 \<and>
   decodeBase64 ''AAD/fw=='' = Inr [0, 0, 255, 127] \<and>
   pcmToAudioBuffer [0, 0, 255, 127] 24000 =
     Inr \<lparr>numberOfChannels = 1, sampleRate = 24000, channelData = [0, 32767 / 32768]\<rparr> \<and>
   atob '' '' = Inr [] \<and>
   decodeBase64 '' '' = Inr [] \<and>
   pcmToAudioBuffer [] 24000 = Inl NotSupportedError"
proof -
  have a: "atob ''AAD/fw=='' = Inr [0, 0, 255, 127]" by (rule atob_example)
  have l: "length [0, 0, 255, 127 :: nat] = 2 * 2" by simp
  have a0: "atob '' '' = Inr []" by (rule atob_blank)
  have l0: "length ([] :: nat list) = 2 * 0" by simp
  note t = decode_samples[OF a l]
  note t0 = decode_samples[OF a0 l0]
  have d: "decodeBase64 ''AAD/fw=='' = Inr [0, 0, 255, 127]"
    using t[THEN conjunct1] by simp
  have "\<exists>buf. pcmToAudioBuffer (map of_nat [0, 0, 255, 127]) 24000 = Inr buf \<and>
               numberOfChannels buf = 1 \<and> sampleRate buf = 24000 \<and>
               length (channelData buf) = 2 \<and>
               (\<forall>i<2. channelData buf ! i =
                         real_of_int (le_signed16 (of_nat ([0, 0, 255, 127] ! (2 * i)))
                                                  (of_nat ([0, 0, 255, 127] ! (2 * i + 1)))) / 32768 \<and>
                       - 1 \<le> channelData buf ! i \<and> channelData buf ! i \<le> 1)"
    using t[THEN conjunct2, THEN conjunct1] by simp
  then obtain buf where
    b: "pcmToAudioBuffer (map of_nat [0, 0, 255, 127]) 24000 = Inr buf"
       "numberOfChannels buf = 1" "sampleRate buf = 24000" "length (channelData buf) = 2"
    and s: "\<forall>i<2. channelData buf ! i =
              real_of_int (le_signed16 (of_nat ([0, 0, 255, 127] ! (2 * i)))
                                       (of_nat ([0, 0, 255, 127] ! (2 * i + 1)))) / 32768 \<and>
              - 1 \<le> channelData buf ! i \<and> channelData buf ! i \<le> 1"
    by blast
  have s0: "channelData buf ! 0 = 0"
    using s[rule_format, of 0] by (simp add: le_signed16_def)
  have s1: "channelData buf ! 1 = 32767 / 32768"
    using s[rule_format, of 1] by (simp add: le_signed16_def)
  have "channelData buf = [0, 32767 / 32768]"
  proof (rule nth_equalityI)
    show "length (channelData buf) = length [0, 32767 / 32768 :: real]" using b(4) by simp
    fix i assume "i < length (channelData buf)"
    then have "i = 0 \<or> i = 1" using b(4) by auto
    then show "channelData buf ! i = [0, 32767 / 32768] ! i" using s0 s1 by auto
  qed
  then have "buf = \<lparr>numberOfChannels = 1, sampleRate = 24000, channelData = [0, 32767 / 32768]\<rparr>"
    using b(2,3) by (intro audio_buffer.equality) simp_all
  then have p: "pcmToAudioBuffer [0, 0, 255, 127] 24000 =
     Inr \<lparr>numberOfChannels = 1, sampleRate = 24000, channelData = [0, 32767 / 32768]\<rparr>"
    using b(1) by simp
  have d0: "decodeBase64 '' '' = Inr []" using t0[THEN conjunct1] by simp
  have p0: "pcmToAudioBuffer [] 24000 = Inl NotSupportedError"
    using t0[THEN conjunct2, THEN conjunct2] by simp
  show ?thesis using a l d p a0 d0 p0 by blast
qed

subsection \<open>C9: the voice of a later caller\<close>

lemma audioCache_prefetchTTS: "audioCache (snd (prefetchTTS tx v w)) = audioCache w"
  by (simp add: prefetchTTS_def getAI_def emit_def fetch_finally_def Let_def split: option.splits)

lemma audioCache_play_resolve [simp]: "audioCache (play_resolve c t w) = audioCache w"
  using audioCache_prefetchTTS[of "p_text t" "p_voice t" w]
  by (auto simp: play_resolve_def split: option.splits prod.splits)

lemma audioCache_playTTS [simp]: "audioCache (playTTS tx cb v w) = audioCache w"
proof -
  obtain st w1 where g: "getAudioContext (w\<lparr>next_call := Suc (next_call w)\<rparr>) = (st, w1)"
    by (cases "getAudioContext (w\<lparr>next_call := Suc (next_call w)\<rparr>)")
  show ?thesis using getAudioContext_fields[OF g] by (simp add: playTTS_unfold[OF g])
qed





subsection \<open>C6: what is cached, and what is derived on every play\<close>

text \<open>
  Claim C6 says that the sample buffer is derived once and that decoding is not
  repeated on replay.  The cache holds the bytes returned by \<^verbatim>\<open>decodeBase64\<close>;
  \<^verbatim>\<open>playTTS\<close> calls \<^verbatim>\<open>pcmToAudioBuffer\<close> on them each time.  After one prefetch
  and two plays of \<^verbatim>\<open>"hi"\<close> the trace has one call of the synthesizer, one
  \<^verbatim>\<open>decodeBase64\<close> and two calls of \<^verbatim>\<open>pcmToAudioBuffer\<close>, and the cache still holds
  the four bytes.
\<close>

theorem replay_converts_again_counterexample:
  "map_option trace
     (run (init True Running)
        [CallPrefetch ''hi'' Kore, FetchDone 0 (Responds (Some ''AAD/fw=='')),
         CallPlay ''hi'' True Kore, CallPlay ''hi'' True Kore])
     = Some [Synthesize ''hi'' Kore, DecodeBase64 ''hi'',
             PcmToAudioBuffer 0 ''hi'', PcmToAudioBuffer 1 ''hi''] \<and>
   map_option (cached ''hi'')
     (run (init True Running)
        [CallPrefetch ''hi'' Kore, FetchDone 0 (Responds (Some ''AAD/fw=='')),
         CallPlay ''hi'' True Kore, CallPlay ''hi'' True Kore])
     = Some (Some [0, 0, 255, 127])"
proof -
  let ?w2 = "(init True Running)\<lparr>next_promise := Suc 0,
      trace := [Synthesize ''hi'' Kore, DecodeBase64 ''hi''],
      audioCache := [''hi'' \<mapsto> [0, 0, 255, 127]],
      settled := {0}\<rparr>"
  have s12: "run (init True Running)
        [CallPrefetch ''hi'' Kore, FetchDone 0 (Responds (Some ''AAD/fw=='')),
         CallPlay ''hi'' True Kore, CallPlay ''hi'' True Kore]
      = run ?w2 [CallPlay ''hi'' True Kore, CallPlay ''hi'' True Kore]"
    using fetch_hi_done by (simp add: step_def prefetch_hi_init)
  have p: "run ?w2 [CallPlay ''hi'' True Kore, CallPlay ''hi'' True Kore]
      = Some (playTTS ''hi'' True Kore (playTTS ''hi'' True Kore ?w2))"
    by (simp add: step_def)
  have t: "trace (playTTS ''hi'' True Kore (playTTS ''hi'' True Kore ?w2))
      = [Synthesize ''hi'' Kore, DecodeBase64 ''hi'',
         PcmToAudioBuffer 0 ''hi'', PcmToAudioBuffer 1 ''hi'']"
    by (simp add: init_def playTTS_def getAudioContext_def stopAudio_def source_stop_def
          play_resolve_def play_output_def emit_def pcm_example Let_def)
  have c: "cached ''hi'' (playTTS ''hi'' True Kore (playTTS ''hi'' True Kore ?w2))
      = Some [0, 0, 255, 127]"
    by (simp add: init_def playTTS_def getAudioContext_def stopAudio_def source_stop_def
          play_resolve_def play_output_def emit_def pcm_example Let_def cached_def)
  show ?thesis unfolding s12 p using t c by simp
qed

text \<open>
  Claim C6 as amended.  In every reachable state the bytes of a text have been
  decoded by \<^verbatim>\<open>decodeBase64\<close> exactly once if the text is cached and never
  otherwise, and a request that completes with a payload stores the decoded
  bytes under its text.  Every play of a cached text decodes no base64, calls
  no synthesizer, leaves the cached bytes in place and calls
  \<^verbatim>\<open>pcmToAudioBuffer\<close> once more, the buffer of its node being the result of that
  call.  A play reaches that point in one of three ways, and the statement has
  one part for each: within the call of \<^verbatim>\<open>playTTS\<close> when the context is running
  and the text is cached, when the call resumes after \<^verbatim>\<open>await ctx.resume()\<close>, and
  when it resumes after waiting for the request.
\<close>

theorem bytes_decoded_once_buffer_rebuilt:
  assumes "reachable w"
  shows "count_list (trace w) (DecodeBase64 tx) = (if cached tx w = None then 0 else 1) \<and>
         (\<forall>p f payload bytes.
            fetches w p = Some f \<and> payload \<noteq> [] \<and> decodeBase64 payload = Inr bytes \<longrightarrow>
            (\<exists>w'. step w (FetchDone p (Responds (Some payload))) = Some w' \<and>
                  cached (f_text f) w' = Some bytes \<and>
                  count_list (trace w') (DecodeBase64 (f_text f)) = 1)) \<and>
         (\<forall>bytes cb v.
            cached tx w = Some bytes \<and> fst (getAudioContext w) = Running \<longrightarrow>
            pcm_calls tx (trace (playTTS tx cb v w)) = Suc (pcm_calls tx (trace w)) \<and>
            count_list (trace (playTTS tx cb v w)) (DecodeBase64 tx) = 1 \<and>
            synth_calls tx (trace (playTTS tx cb v w)) = synth_calls tx (trace w) \<and>
            cached tx (playTTS tx cb v w) = Some bytes \<and>
            (\<forall>buf. pcmToAudioBuffer bytes 24000 = Inr buf \<longrightarrow>
               map_option s_buffer (sources (playTTS tx cb v w) (next_call w)) = Some buf)) \<and>
         (\<forall>c t bytes.
            plays w c = Some t \<and> p_text t = tx \<and> p_pc t = AwaitResume \<and>
            cached tx w = Some bytes \<longrightarrow>
            (\<exists>w'. step w (ResumeDone c) = Some w' \<and>
                  pcm_calls tx (trace w') = Suc (pcm_calls tx (trace w)) \<and>
                  count_list (trace w') (DecodeBase64 tx) = 1 \<and>
                  synth_calls tx (trace w') = synth_calls tx (trace w) \<and>
                  cached tx w' = Some bytes \<and>
                  (\<forall>buf. pcmToAudioBuffer bytes 24000 = Inr buf \<longrightarrow>
                     map_option s_buffer (sources w' c) = Some buf))) \<and>
         (\<forall>c t a bytes.
            plays w c = Some t \<and> p_text t = tx \<and> p_pc t = AwaitAudio a \<and> is_settled w a \<and>
            cached tx w = Some bytes \<longrightarrow>
            (\<exists>w'. step w (AudioReady c) = Some w' \<and>
                  pcm_calls tx (trace w') = Suc (pcm_calls tx (trace w)) \<and>
                  count_list (trace w') (DecodeBase64 tx) = 1 \<and>
                  synth_calls tx (trace w') = synth_calls tx (trace w) \<and>
                  cached tx w' = Some bytes \<and>
                  (\<forall>buf. pcmToAudioBuffer bytes 24000 = Inr buf \<longrightarrow>
                     map_option s_buffer (sources w' c) = Some buf)))"
proof -
  have inv: "fetch_inv w" using assms by (rule reachable_fetch_inv)
  have cnt: "\<And>T. count_list (trace w) (DecodeBase64 T) = (if audioCache w T = None then 0 else 1)"
    using inv unfolding fetch_inv_def by blast
  have 1: "count_list (trace w) (DecodeBase64 tx) = (if cached tx w = None then 0 else 1)"
    using cnt[of tx] by (simp add: cached_def)
  have 2: "\<forall>p f payload bytes.
            fetches w p = Some f \<and> payload \<noteq> [] \<and> decodeBase64 payload = Inr bytes \<longrightarrow>
            (\<exists>w'. step w (FetchDone p (Responds (Some payload))) = Some w' \<and>
                  cached (f_text f) w' = Some bytes \<and>
                  count_list (trace w') (DecodeBase64 (f_text f)) = 1)"
  proof (intro allI impI)
    fix p f payload bytes
    assume a: "fetches w p = Some f \<and> payload \<noteq> [] \<and> decodeBase64 payload = Inr bytes"
    then have f: "fetches w p = Some f" and ne: "payload \<noteq> []"
      and d: "decodeBase64 payload = Inr bytes" by blast+
    have "audioCache w (f_text f) = None"
      using inv f unfolding fetch_inv_def by blast
    then have z: "count_list (trace w) (DecodeBase64 (f_text f)) = 0"
      using cnt[of "f_text f"] by simp
    show "\<exists>w'. step w (FetchDone p (Responds (Some payload))) = Some w' \<and>
                  cached (f_text f) w' = Some bytes \<and>
                  count_list (trace w') (DecodeBase64 (f_text f)) = 1"
      using f z fetch_complete_stores[OF d ne]
      by (simp add: step_def cached_def emit_def count_list_snoc)
  qed
  have 3: "\<forall>bytes cb v.
            cached tx w = Some bytes \<and> fst (getAudioContext w) = Running \<longrightarrow>
            pcm_calls tx (trace (playTTS tx cb v w)) = Suc (pcm_calls tx (trace w)) \<and>
            count_list (trace (playTTS tx cb v w)) (DecodeBase64 tx) = 1 \<and>
            synth_calls tx (trace (playTTS tx cb v w)) = synth_calls tx (trace w) \<and>
            cached tx (playTTS tx cb v w) = Some bytes \<and>
            (\<forall>buf. pcmToAudioBuffer bytes 24000 = Inr buf \<longrightarrow>
               map_option s_buffer (sources (playTTS tx cb v w) (next_call w)) = Some buf)"
  proof (intro allI impI)
    fix bytes cb v
    assume a: "cached tx w = Some bytes \<and> fst (getAudioContext w) = Running"
    then have c: "audioCache w tx = Some bytes" and r: "fst (getAudioContext w) = Running"
      by (simp_all add: cached_def)
    let ?t = "\<lparr>p_text = tx, p_onEnded = cb, p_voice = v, p_pc = AwaitResume\<rparr>"
    let ?w1 = "snd (getAudioContext (w\<lparr>next_call := Suc (next_call w)\<rparr>))"
    have e: "playTTS tx cb v w = play_output (next_call w) ?t (Some bytes) (stopAudio ?w1)"
      by (rule playTTS_cached_running[OF c r])
    have g: "getAudioContext (w\<lparr>next_call := Suc (next_call w)\<rparr>)
               = (fst (getAudioContext (w\<lparr>next_call := Suc (next_call w)\<rparr>)), ?w1)"
      by simp
    note f = getAudioContext_fields[OF g]
    have tr: "trace (stopAudio ?w1) = trace w" and ca: "audioCache (stopAudio ?w1) = audioCache w"
      using f by simp_all
    have t1: "pcm_calls tx (trace (playTTS tx cb v w)) = Suc (pcm_calls tx (trace w))"
      unfolding e trace_play_output_Some tr
      by (simp add: pcm_calls_def is_pcm_def split: sum.splits)
    have t2: "count_list (trace (playTTS tx cb v w)) (DecodeBase64 tx) = 1"
      unfolding e using cnt[of tx] c tr by simp
    have t3: "synth_calls tx (trace (playTTS tx cb v w)) = synth_calls tx (trace w)"
      unfolding e using tr by simp
    have t4: "cached tx (playTTS tx cb v w) = Some bytes"
      unfolding e cached_def using ca c by simp
    have t5: "\<forall>buf. pcmToAudioBuffer bytes 24000 = Inr buf \<longrightarrow>
               map_option s_buffer (sources (playTTS tx cb v w) (next_call w)) = Some buf"
      unfolding e by (simp add: sources_play_output_Some)
    show "pcm_calls tx (trace (playTTS tx cb v w)) = Suc (pcm_calls tx (trace w)) \<and>
            count_list (trace (playTTS tx cb v w)) (DecodeBase64 tx) = 1 \<and>
            synth_calls tx (trace (playTTS tx cb v w)) = synth_calls tx (trace w) \<and>
            cached tx (playTTS tx cb v w) = Some bytes \<and>
            (\<forall>buf. pcmToAudioBuffer bytes 24000 = Inr buf \<longrightarrow>
               map_option s_buffer (sources (playTTS tx cb v w) (next_call w)) = Some buf)"
      using t1 t2 t3 t4 t5 by blast
  qed
  have out: "\<And>c (t::play_call) bytes w0. p_text t = tx \<Longrightarrow> cached tx w = Some bytes \<Longrightarrow>
      trace w0 = trace w \<Longrightarrow> audioCache w0 = audioCache w \<Longrightarrow>
      pcm_calls tx (trace (play_output c t (Some bytes) w0)) = Suc (pcm_calls tx (trace w)) \<and>
                  count_list (trace (play_output c t (Some bytes) w0)) (DecodeBase64 tx) = 1 \<and>
                  synth_calls tx (trace (play_output c t (Some bytes) w0)) = synth_calls tx (trace w) \<and>
                  cached tx (play_output c t (Some bytes) w0) = Some bytes \<and>
                  (\<forall>buf. pcmToAudioBuffer bytes 24000 = Inr buf \<longrightarrow>
                     map_option s_buffer (sources (play_output c t (Some bytes) w0) c) = Some buf)"
  proof -
    fix c and t :: play_call and bytes and w0 :: world
    assume t: "p_text t = tx" and c: "cached tx w = Some bytes"
      and tr: "trace w0 = trace w" and ca: "audioCache w0 = audioCache w"
    have one: "count_list (trace w) (DecodeBase64 tx) = 1" using 1 c by simp
    have q1: "pcm_calls tx (trace (play_output c t (Some bytes) w0)) = Suc (pcm_calls tx (trace w))"
      unfolding trace_play_output_Some tr using t
      by (simp add: pcm_calls_def is_pcm_def split: sum.splits)
    have q2: "count_list (trace (play_output c t (Some bytes) w0)) (DecodeBase64 tx) = 1"
      using one tr by simp
    have q3: "synth_calls tx (trace (play_output c t (Some bytes) w0)) = synth_calls tx (trace w)"
      using tr by simp
    have q4: "cached tx (play_output c t (Some bytes) w0) = Some bytes"
      using c ca by (simp add: cached_def)
    have q5: "\<forall>buf. pcmToAudioBuffer bytes 24000 = Inr buf \<longrightarrow>
                     map_option s_buffer (sources (play_output c t (Some bytes) w0) c) = Some buf"
      by (simp add: sources_play_output_Some)
    show "pcm_calls tx (trace (play_output c t (Some bytes) w0)) = Suc (pcm_calls tx (trace w)) \<and>
                  count_list (trace (play_output c t (Some bytes) w0)) (DecodeBase64 tx) = 1 \<and>
                  synth_calls tx (trace (play_output c t (Some bytes) w0)) = synth_calls tx (trace w) \<and>
                  cached tx (play_output c t (Some bytes) w0) = Some bytes \<and>
                  (\<forall>buf. pcmToAudioBuffer bytes 24000 = Inr buf \<longrightarrow>
                     map_option s_buffer (sources (play_output c t (Some bytes) w0) c) = Some buf)"
      using q1 q2 q3 q4 q5 by blast
  qed
  have 4: "\<forall>c t bytes.
            plays w c = Some t \<and> p_text t = tx \<and> p_pc t = AwaitResume \<and>
            cached tx w = Some bytes \<longrightarrow>
            (\<exists>w'. step w (ResumeDone c) = Some w' \<and>
                  pcm_calls tx (trace w') = Suc (pcm_calls tx (trace w)) \<and>
                  count_list (trace w') (DecodeBase64 tx) = 1 \<and>
                  synth_calls tx (trace w') = synth_calls tx (trace w) \<and>
                  cached tx w' = Some bytes \<and>
                  (\<forall>buf. pcmToAudioBuffer bytes 24000 = Inr buf \<longrightarrow>
                     map_option s_buffer (sources w' c) = Some buf))"
  proof (intro allI impI)
    fix c t bytes
    assume h: "plays w c = Some t \<and> p_text t = tx \<and> p_pc t = AwaitResume \<and>
            cached tx w = Some bytes"
    let ?w0 = "w\<lparr>plays := (plays w)(c := None), audioContext := Some Running\<rparr>"
    have s: "step w (ResumeDone c) = Some (play_output c t (Some bytes) ?w0)"
      using h by (simp add: step_def play_resolve_def cached_def)
    have "pcm_calls tx (trace (play_output c t (Some bytes) ?w0)) = Suc (pcm_calls tx (trace w)) \<and>
                  count_list (trace (play_output c t (Some bytes) ?w0)) (DecodeBase64 tx) = 1 \<and>
                  synth_calls tx (trace (play_output c t (Some bytes) ?w0)) = synth_calls tx (trace w) \<and>
                  cached tx (play_output c t (Some bytes) ?w0) = Some bytes \<and>
                  (\<forall>buf. pcmToAudioBuffer bytes 24000 = Inr buf \<longrightarrow>
                     map_option s_buffer (sources (play_output c t (Some bytes) ?w0) c) = Some buf)"
      using h by (intro out) simp_all
    then show "\<exists>w'. step w (ResumeDone c) = Some w' \<and>
                  pcm_calls tx (trace w') = Suc (pcm_calls tx (trace w)) \<and>
                  count_list (trace w') (DecodeBase64 tx) = 1 \<and>
                  synth_calls tx (trace w') = synth_calls tx (trace w) \<and>
                  cached tx w' = Some bytes \<and>
                  (\<forall>buf. pcmToAudioBuffer bytes 24000 = Inr buf \<longrightarrow>
                     map_option s_buffer (sources w' c) = Some buf)"
      using s by blast
  qed
  have 5: "\<forall>c t a bytes.
            plays w c = Some t \<and> p_text t = tx \<and> p_pc t = AwaitAudio a \<and> is_settled w a \<and>
            cached tx w = Some bytes \<longrightarrow>
            (\<exists>w'. step w (AudioReady c) = Some w' \<and>
                  pcm_calls tx (trace w') = Suc (pcm_calls tx (trace w)) \<and>
                  count_list (trace w') (DecodeBase64 tx) = 1 \<and>
                  synth_calls tx (trace w') = synth_calls tx (trace w) \<and>
                  cached tx w' = Some bytes \<and>
                  (\<forall>buf. pcmToAudioBuffer bytes 24000 = Inr buf \<longrightarrow>
                     map_option s_buffer (sources w' c) = Some buf))"
  proof (intro allI impI)
    fix c t a bytes
    assume h: "plays w c = Some t \<and> p_text t = tx \<and> p_pc t = AwaitAudio a \<and> is_settled w a \<and>
            cached tx w = Some bytes"
    let ?w0 = "w\<lparr>plays := (plays w)(c := None)\<rparr>"
    have s: "step w (AudioReady c) = Some (play_output c t (Some bytes) ?w0)"
      using h by (simp add: step_def cached_def)
    have "pcm_calls tx (trace (play_output c t (Some bytes) ?w0)) = Suc (pcm_calls tx (trace w)) \<and>
                  count_list (trace (play_output c t (Some bytes) ?w0)) (DecodeBase64 tx) = 1 \<and>
                  synth_calls tx (trace (play_output c t (Some bytes) ?w0)) = synth_calls tx (trace w) \<and>
                  cached tx (play_output c t (Some bytes) ?w0) = Some bytes \<and>
                  (\<forall>buf. pcmToAudioBuffer bytes 24000 = Inr buf \<longrightarrow>
                     map_option s_buffer (sources (play_output c t (Some bytes) ?w0) c) = Some buf)"
      using h by (intro out) simp_all
    then show "\<exists>w'. step w (AudioReady c) = Some w' \<and>
                  pcm_calls tx (trace w') = Suc (pcm_calls tx (trace w)) \<and>
                  count_list (trace w') (DecodeBase64 tx) = 1 \<and>
                  synth_calls tx (trace w') = synth_calls tx (trace w) \<and>
                  cached tx w' = Some bytes \<and>
                  (\<forall>buf. pcmToAudioBuffer bytes 24000 = Inr buf \<longrightarrow>
                     map_option s_buffer (sources w' c) = Some buf)"
      using s by blast
  qed
  show ?thesis using 1 2 3 4 5 by blast
qed

lemma run_hi_cached_suspended:
  "run (init True Suspended)
     [CallPrefetch ''hi'' Kore, FetchDone 0 (Responds (Some ''AAD/fw==''))]
     = Some (hi_cached\<lparr>autoplay_policy := Suspended\<rparr>)"
  by (simp add: step_def init_def prefetchTTS_def getAI_def emit_def fetch_complete_def
        fetch_body_def fetch_finally_def decodeBase64_example hi_cached_def Let_def)

lemma reachable_hi_suspended: "reachable (hi_cached\<lparr>autoplay_policy := Suspended\<rparr>)"
  by (rule reachable_run[OF reachable_init run_hi_cached_suspended])

text \<open>The amended claim for the request for \<^verbatim>\<open>"hi"\<close>, for a play after it has
  completed with the payload \<^verbatim>\<open>AAD/fw==\<close>, for call 0 of \<open>two_plays_pending\<close>
  resuming after its request, and for a call resuming after the context has
  resumed.\<close>

theorem bytes_decoded_once_buffer_rebuilt_witness:
  "reachable (fetch_complete 0 \<lparr>f_text = ''a'', f_voice = Kore\<rparr> (Responds (Some ''AAD/fw==''))
                two_plays_pending) \<and>
   (\<exists>w'. step (fetch_complete 0 \<lparr>f_text = ''a'', f_voice = Kore\<rparr> (Responds (Some ''AAD/fw==''))
                two_plays_pending) (AudioReady 0) = Some w' \<and>
         pcm_calls ''a'' (trace w') = 1 \<and> cached ''a'' w' = Some [0, 0, 255, 127]) \<and>
   reachable (playTTS ''hi'' True Kore (hi_cached\<lparr>autoplay_policy := Suspended\<rparr>)) \<and>
   (\<exists>w'. step (playTTS ''hi'' True Kore (hi_cached\<lparr>autoplay_policy := Suspended\<rparr>))
            (ResumeDone 0) = Some w' \<and>
         pcm_calls ''hi'' (trace w') = 1 \<and> cached ''hi'' w' = Some [0, 0, 255, 127]) \<and>
   reachable (snd (prefetchTTS ''hi'' Kore (init True Running))) \<and>
   (\<exists>w'. step (snd (prefetchTTS ''hi'' Kore (init True Running)))
            (FetchDone 0 (Responds (Some ''AAD/fw==''))) = Some w' \<and>
         cached ''hi'' w' = Some [0, 0, 255, 127] \<and>
         count_list (trace w') (DecodeBase64 ''hi'') = 1) \<and>
   reachable (fetch_complete 0 \<lparr>f_text = ''hi'', f_voice = Kore\<rparr> (Responds (Some ''AAD/fw==''))
     (snd (prefetchTTS ''hi'' Kore (init True Running)))) \<and>
   pcm_calls ''hi'' (trace (playTTS ''hi'' True Kore
     (fetch_complete 0 \<lparr>f_text = ''hi'', f_voice = Kore\<rparr> (Responds (Some ''AAD/fw==''))
        (snd (prefetchTTS ''hi'' Kore (init True Running)))))) = 1 \<and>
   count_list (trace (playTTS ''hi'' True Kore
     (fetch_complete 0 \<lparr>f_text = ''hi'', f_voice = Kore\<rparr> (Responds (Some ''AAD/fw==''))
        (snd (prefetchTTS ''hi'' Kore (init True Running)))))) (DecodeBase64 ''hi'') = 1 \<and>
   map_option s_buffer (sources (playTTS ''hi'' True Kore
     (fetch_complete 0 \<lparr>f_text = ''hi'', f_voice = Kore\<rparr> (Responds (Some ''AAD/fw==''))
        (snd (prefetchTTS ''hi'' Kore (init True Running))))) 0)
     = Some \<lparr>numberOfChannels = 1, sampleRate = 24000, channelData = [0, 32767 / 32768]\<rparr>"
proof -
  let ?w1 = "snd (prefetchTTS ''hi'' Kore (init True Running))"
  let ?f = "\<lparr>f_text = ''hi'', f_voice = Kore\<rparr>"
  let ?w2 = "fetch_complete 0 ?f (Responds (Some ''AAD/fw=='')) ?w1"
  have r1: "reachable ?w1" by (rule reachable_prefetch_hi)
  have r2: "reachable ?w2" by (rule reachable_hi_cached)
  have h1: "fetches ?w1 0 = Some ?f \<and> ''AAD/fw=='' \<noteq> [] \<and>
            decodeBase64 ''AAD/fw=='' = Inr [0, 0, 255, 127]"
    by (simp add: prefetch_hi_init decodeBase64_example)
  have h2: "cached ''hi'' ?w2 = Some [0, 0, 255, 127] \<and> fst (getAudioContext ?w2) = Running"
    unfolding fetch_hi_done by (simp add: cached_def getAudioContext_def init_def)
  have n: "next_call ?w2 = 0" "pcm_calls ''hi'' (trace ?w2) = 0"
    unfolding fetch_hi_done by (simp_all add: pcm_calls_def is_pcm_def init_def)
  note a = bytes_decoded_once_buffer_rebuilt[OF r1, where tx = "''hi''", THEN conjunct2,
             THEN conjunct1, rule_format, OF h1]
  note b = bytes_decoded_once_buffer_rebuilt[OF r2, where tx = "''hi''", THEN conjunct2,
             THEN conjunct2, THEN conjunct1, rule_format, OF h2, where cb = True and v = Kore]
  have 1: "\<exists>w'. step ?w1 (FetchDone 0 (Responds (Some ''AAD/fw==''))) = Some w' \<and>
         cached ''hi'' w' = Some [0, 0, 255, 127] \<and>
         count_list (trace w') (DecodeBase64 ''hi'') = 1"
    using a by simp
  have 2: "pcm_calls ''hi'' (trace (playTTS ''hi'' True Kore ?w2)) = 1"
    using b n by simp
  have 3: "count_list (trace (playTTS ''hi'' True Kore ?w2)) (DecodeBase64 ''hi'') = 1"
    using b by simp
  have 4: "map_option s_buffer (sources (playTTS ''hi'' True Kore ?w2) 0)
     = Some \<lparr>numberOfChannels = 1, sampleRate = 24000, channelData = [0, 32767 / 32768]\<rparr>"
    using b[THEN conjunct2, THEN conjunct2, THEN conjunct2, THEN conjunct2, rule_format,
            OF pcm_example] n by simp
  let ?fa = "\<lparr>f_text = ''a'', f_voice = Kore\<rparr>"
  let ?ta = "\<lparr>p_text = ''a'', p_onEnded = True, p_voice = Kore, p_pc = AwaitAudio (Promise 0)\<rparr>"
  let ?wS = "fetch_complete 0 ?fa (Responds (Some ''AAD/fw=='')) two_plays_pending"
  let ?th = "\<lparr>p_text = ''hi'', p_onEnded = True, p_voice = Kore, p_pc = AwaitResume\<rparr>"
  let ?wP = "playTTS ''hi'' True Kore (hi_cached\<lparr>autoplay_policy := Suspended\<rparr>)"
  have rS: "reachable ?wS" by (rule reachable_step[OF reachable_two_plays step_a_resolved])
  have rP: "reachable ?wP"
    by (rule reachable_step[OF reachable_hi_suspended, of "CallPlay ''hi'' True Kore"])
       (simp add: step_def)
  have ne: "''AAD/fw=='' \<noteq> []" by simp
  have cS: "cached ''a'' ?wS = Some [0, 0, 255, 127]"
    by (simp add: cached_def fetch_complete_stores[OF decodeBase64_example ne] emit_def)
  have hS: "plays ?wS 0 = Some ?ta \<and> p_text ?ta = ''a'' \<and> p_pc ?ta = AwaitAudio (Promise 0) \<and>
            is_settled ?wS (Promise 0) \<and> cached ''a'' ?wS = Some [0, 0, 255, 127]"
    using cS fetch_complete_settles[of 0 ?fa "Responds (Some ''AAD/fw=='')" two_plays_pending]
    by (simp add: plays_two_plays_0)
  have nS: "pcm_calls ''a'' (trace ?wS) = 0"
    by (simp add: fetch_complete_stores[OF decodeBase64_example ne] emit_def pcm_calls_def
          is_pcm_def two_plays_pending_def)
  have hP: "plays ?wP 0 = Some ?th \<and> p_text ?th = ''hi'' \<and> p_pc ?th = AwaitResume \<and>
            cached ''hi'' ?wP = Some [0, 0, 255, 127]"
    by (simp add: playTTS_def getAudioContext_def stopAudio_def hi_cached_def Let_def cached_def)
  have nP: "pcm_calls ''hi'' (trace ?wP) = 0"
    by (simp add: playTTS_def getAudioContext_def stopAudio_def hi_cached_def Let_def
          pcm_calls_def is_pcm_def)
  note e = bytes_decoded_once_buffer_rebuilt[OF rS, where tx = "''a''", THEN conjunct2,
             THEN conjunct2, THEN conjunct2, THEN conjunct2, rule_format, OF hS]
  note g = bytes_decoded_once_buffer_rebuilt[OF rP, where tx = "''hi''", THEN conjunct2,
             THEN conjunct2, THEN conjunct2, THEN conjunct1, rule_format, OF hP]
  have 5: "\<exists>w'. step ?wS (AudioReady 0) = Some w' \<and>
         pcm_calls ''a'' (trace w') = 1 \<and> cached ''a'' w' = Some [0, 0, 255, 127]"
    using e nS by auto
  have 6: "\<exists>w'. step ?wP (ResumeDone 0) = Some w' \<and>
         pcm_calls ''hi'' (trace w') = 1 \<and> cached ''hi'' w' = Some [0, 0, 255, 127]"
    using g nP by auto
  show ?thesis using r1 r2 1 2 3 4 rS rP 5 6 by blast
qed

subsection \<open>C4: audible nodes\<close>

text \<open>
  What the code achieves: when no call of \<^verbatim>\<open>playTTS\<close> begins while an earlier
  one is suspended, at most one node is audible and it is the tracked one; and
  in every execution the node tracked when \<^verbatim>\<open>stopAudio\<close> or \<^verbatim>\<open>playTTS\<close> is called
  is not audible after \<^verbatim>\<open>stopAudio\<close>, nor after the part of \<^verbatim>\<open>playTTS\<close> that runs
  before its first \<^verbatim>\<open>await\<close>.
\<close>

lemma stop_precedes_resolution:
  "(seq_reachable w \<longrightarrow>
      (\<forall>a b. audible w a \<and> audible w b \<longrightarrow> a = b) \<and>
      (\<forall>a. audible w a \<longrightarrow> currentSource w = Some a)) \<and>
   (reachable w \<longrightarrow>
      (\<forall>h. currentSource w = Some h \<longrightarrow>
         \<not> audible (stopAudio w) h \<and> \<not> audible (playTTS tx cb v w) h))"
proof -
  have 1: "seq_reachable w \<longrightarrow>
      (\<forall>a b. audible w a \<and> audible w b \<longrightarrow> a = b) \<and>
      (\<forall>a. audible w a \<longrightarrow> currentSource w = Some a)"
  proof
    assume "seq_reachable w"
    then have "seq_inv w" by (rule seq_reachable_seq_inv)
    then have t: "\<forall>a. audible w a \<longrightarrow> currentSource w = Some a"
      unfolding seq_inv_def by blast
    then have "\<forall>a b. audible w a \<and> audible w b \<longrightarrow> a = b"
      by (metis option.inject)
    then show "(\<forall>a b. audible w a \<and> audible w b \<longrightarrow> a = b) \<and>
      (\<forall>a. audible w a \<longrightarrow> currentSource w = Some a)" using t by blast
  qed
  have 2: "reachable w \<longrightarrow>
      (\<forall>h. currentSource w = Some h \<longrightarrow>
         \<not> audible (stopAudio w) h \<and> \<not> audible (playTTS tx cb v w) h)"
  proof (intro impI allI)
    fix h
    assume r: "reachable w" and c: "currentSource w = Some h"
    have inv: "play_inv w" using r by (rule reachable_play_inv)
    then have "sources w h \<noteq> None" using c unfolding play_inv_def by blast
    moreover have "next_call w \<le> h \<longrightarrow> sources w h = None"
      using inv unfolding play_inv_def by blast
    ultimately have lt: "h \<noteq> next_call w" by auto
    have a: "\<not> audible (stopAudio w) h" using c by (simp add: audible_stopAudio)
    have b: "\<not> audible (playTTS tx cb v w) h"
      using audible_playTTS_old[of tx cb v w h] c lt by auto
    show "\<not> audible (stopAudio w) h \<and> \<not> audible (playTTS tx cb v w) h"
      using a b by simp
  qed
  show ?thesis using 1 2 by blast
qed

lemma stop_precedes_resolution_example:
  "seq_reachable (playTTS ''hi'' True Kore hi_cached) \<and>
   reachable (playTTS ''hi'' True Kore hi_cached) \<and>
   audible (playTTS ''hi'' True Kore hi_cached) 0 \<and>
   currentSource (playTTS ''hi'' True Kore hi_cached) = Some 0 \<and>
   \<not> audible (stopAudio (playTTS ''hi'' True Kore hi_cached)) 0 \<and>
   \<not> audible (playTTS ''hi'' True Kore (playTTS ''hi'' True Kore hi_cached)) 0"
proof -
  let ?w = "playTTS ''hi'' True Kore hi_cached"
  have s: "seq_reachable ?w" by (rule seq_reachable_play_hi)
  have r: "reachable ?w" using s by (rule seq_reachable_reachable)
  have a: "audible ?w 0" by (simp add: audible_def sources_play_hi)
  note t = stop_precedes_resolution[of ?w "''hi''" True Kore]
  have c: "currentSource ?w = Some 0" using t s a by blast
  have 1: "\<not> audible (stopAudio ?w) 0" using t r c by blast
  have 2: "\<not> audible (playTTS ''hi'' True Kore ?w) 0" using t r c by blast
  show ?thesis using s r a c 1 2 by blast
qed

text \<open>
  Claim C4 says that two nodes are never audible at the same time and that the
  last call of \<^verbatim>\<open>playTTS\<close> to begin has the output to itself.  The code stops
  the tracked node at the beginning of \<^verbatim>\<open>playTTS\<close>
  (\<^verbatim>\<open>// Stop any existing audio immediately\<close>) and keeps \<^verbatim>\<open>currentSource\<close> to
  \<^verbatim>\<open>// Track current playing source\<close>, but a call that resumes after its \<^verbatim>\<open>await\<close> starts its node and overwrites
  \<^verbatim>\<open>currentSource\<close> without stopping the node tracked there.  Evaluated for
  \<^verbatim>\<open>playTTS("a", cb)\<close> followed at once by \<^verbatim>\<open>playTTS("b", cb)\<close>, both requests
  answered and both calls resumed: nodes 0 and 1 are audible together, only
  node 1 is tracked, and node 0 is still audible after \<^verbatim>\<open>stopAudio\<close> has been
  called twice.
\<close>

theorem overlapping_plays_both_audible:
  "map_option audible_nodes
     (run (init True Running)
        [CallPlay ''a'' True Kore, CallPlay ''b'' True Kore,
         FetchDone 0 (Responds (Some ''AAD/fw=='')), FetchDone 1 (Responds (Some ''AAD/fw=='')),
         AudioReady 0, AudioReady 1])
     = Some [0, 1] \<and>
   map_option currentSource
     (run (init True Running)
        [CallPlay ''a'' True Kore, CallPlay ''b'' True Kore,
         FetchDone 0 (Responds (Some ''AAD/fw=='')), FetchDone 1 (Responds (Some ''AAD/fw=='')),
         AudioReady 0, AudioReady 1])
     = Some (Some 1) \<and>
   map_option audible_nodes
     (run (init True Running)
        [CallPlay ''a'' True Kore, CallPlay ''b'' True Kore,
         FetchDone 0 (Responds (Some ''AAD/fw=='')), FetchDone 1 (Responds (Some ''AAD/fw=='')),
         AudioReady 0, AudioReady 1, CallStop, CallStop])
     = Some [0]"
proof -
  have r: "\<And>es. run (init True Running)
        (CallPlay ''a'' True Kore # CallPlay ''b'' True Kore # es) = run two_plays_pending es"
    using run_append[OF run_two_plays] by simp
  have 1: "map_option audible_nodes
     (run two_plays_pending
        [FetchDone 0 (Responds (Some ''AAD/fw=='')), FetchDone 1 (Responds (Some ''AAD/fw=='')),
         AudioReady 0, AudioReady 1])
     = Some [0, 1]"
    by (simp add: step_def two_plays_pending_def fetch_complete_def fetch_body_def
          fetch_finally_def emit_def decodeBase64_example play_output_def pcm_example
          is_settled_def audible_nodes_def audible_def Let_def numeral_2_eq_2)
  have 2: "map_option currentSource
     (run two_plays_pending
        [FetchDone 0 (Responds (Some ''AAD/fw=='')), FetchDone 1 (Responds (Some ''AAD/fw=='')),
         AudioReady 0, AudioReady 1])
     = Some (Some 1)"
    by (simp add: step_def two_plays_pending_def fetch_complete_def fetch_body_def
          fetch_finally_def emit_def decodeBase64_example play_output_def pcm_example
          is_settled_def Let_def)
  have 3: "map_option audible_nodes
     (run two_plays_pending
        [FetchDone 0 (Responds (Some ''AAD/fw=='')), FetchDone 1 (Responds (Some ''AAD/fw=='')),
         AudioReady 0, AudioReady 1, CallStop, CallStop])
     = Some [0]"
    by (simp add: step_def two_plays_pending_def fetch_complete_def fetch_body_def
          fetch_finally_def emit_def decodeBase64_example play_output_def pcm_example
          is_settled_def audible_nodes_def audible_def stopAudio_def source_stop_def
          Let_def numeral_2_eq_2)
  show ?thesis unfolding r using 1 2 3 by simp
qed

end
